theory Spec2Isabelle
  imports Main "HOL-Library.Sublist" "HOL-Library.Word"
begin

section \<open>serial-prober: opening and probing serial ports\<close>

text \<open>
  A shallow embedding of \<^verbatim>\<open>src/serial-prober.js\<close>. The class \<^verbatim>\<open>SerialProber\<close> is event
  driven: its methods return at once and the work is done by closures that the runtime
  calls later (the callback of \<^verbatim>\<open>new SerialPort\<close>, the two \<^verbatim>\<open>setTimeout\<close> callbacks, the
  \<^verbatim>\<open>'data'\<close> listener). Every method and every closure of the source is a function from
  the state to the state; the runtime (objects, promises, timers, the clock) is part of
  the state. The host is an oracle: the outcome of each open attempt and the chunks a
  port delivers. The \<^verbatim>\<open>DEBUG\<close> logging changes nothing and is left out.
\<close>

subsection \<open>Strings and buffers\<close>

type_synonym byte = "8 word"
type_synonym buffer = "byte list"

text \<open>\<^verbatim>\<open>String.prototype.startsWith\<close>.\<close>

fun startsWith :: "'a list \<Rightarrow> 'a list \<Rightarrow> bool" where
  "startsWith s [] = True"
| "startsWith [] (p # ps) = False"
| "startsWith (c # cs) (p # ps) = (c = p \<and> startsWith cs ps)"

text \<open>
  \<^verbatim>\<open>String.prototype.includes\<close> and \<^verbatim>\<open>Buffer.prototype.includes\<close>: the second argument
  occurs somewhere in the first, as a contiguous run. An empty needle is always found.
\<close>

fun js_includes :: "'a list \<Rightarrow> 'a list \<Rightarrow> bool" where
  "js_includes [] m = (m = [])"
| "js_includes (c # cs) m = (startsWith (c # cs) m \<or> js_includes cs m)"

text \<open>
  \<^verbatim>\<open>String.prototype.replace\<close> with a string pattern: the first occurrence of the pattern
  is replaced, the rest of the string is kept. (The replacement used by the source has no
  \<^verbatim>\<open>$\<close> in it, so it is inserted as it is.)
\<close>

fun replace :: "string \<Rightarrow> string \<Rightarrow> string \<Rightarrow> string" where
  "replace [] pat rep = (if pat = [] then rep else [])"
| "replace (c # cs) pat rep =
     (if startsWith (c # cs) pat then rep @ drop (length pat) (c # cs)
      else c # replace cs pat rep)"

subsection \<open>Probe parameters and port descriptors\<close>

text \<open>
  \<^verbatim>\<open>this.param\<close>. \<open>probeCmd\<close> and \<open>probeRsp\<close> are the bytes that \<^verbatim>\<open>Buffer.from\<close> makes of
  them. A filter is an array of objects; \<^verbatim>\<open>Object.entries\<close> lists the keys of one object
  in order, so an object is the list of its entries. The patterns are regular expressions
  (or strings); their type is a parameter, and so is \<^verbatim>\<open>String.prototype.match\<close> on them.
\<close>

record 'pat params =
  name :: string
  baudRate :: nat
  probeCmd :: buffer
  probeRsp :: buffer
  filters :: "(string \<times> 'pat) list list"

text \<open>
  What is thrown, and what a promise is rejected with: an \<^verbatim>\<open>Error\<close> object from the host
  (its message), the string that \<^verbatim>\<open>probe\<close> builds, a \<^verbatim>\<open>TypeError\<close> (a property of
  \<^verbatim>\<open>undefined\<close> or \<^verbatim>\<open>null\<close> is read, or a value that is no function is called), a
  \<^verbatim>\<open>SyntaxError\<close> (a string pattern is no regular expression).
\<close>

datatype err = Error string | Str string | TypeError | SyntaxError

text \<open>The values a property of a port descriptor can hold; only strings are matched.\<close>

datatype jsvalue = JString string | JNumber int | JBool bool | JNull | JUndefined

text \<open>
  An element of \<^verbatim>\<open>SerialPort.list()\<close>: an object, its own properties by name. A lookup is
  \<^verbatim>\<open>port.hasOwnProperty(key)\<close> and \<^verbatim>\<open>port[key]\<close> in one. Nothing says that \<^verbatim>\<open>comName\<close> is
  there or that it is a string.
\<close>

type_synonym port = "string \<Rightarrow> jsvalue option"

text \<open>
  Lines 146 to 148 of \<^verbatim>\<open>probeAll\<close>, and again lines 171 to 173 of
  \<^verbatim>\<open>serialPortMatchesFilter\<close>: the rewriting of \<^verbatim>\<open>port.comName\<close>, in place. When \<^verbatim>\<open>comName\<close>
  is not a string, \<^verbatim>\<open>port.comName.startsWith(..)\<close> throws a \<^verbatim>\<open>TypeError\<close>.
\<close>

definition normalizePort :: "port \<Rightarrow> err + port" where
  "normalizePort pt =
     (case pt ''comName'' of
        Some (JString s) \<Rightarrow>
          Inr (if startsWith s ''/dev/tty.usb''
               then pt(''comName'' \<mapsto> JString (replace s ''/dev/tty'' ''/dev/cu''))
               else pt)
      | _ \<Rightarrow> Inl TypeError)"

text \<open>
  The inner loop of \<^verbatim>\<open>serialPortMatchesFilter\<close> over the entries of one filter object.
  \<open>M re s\<close> is \<^verbatim>\<open>s.match(re)\<close>: it throws (\<open>Inl\<close>, a \<^verbatim>\<open>SyntaxError\<close> for a string that is no
  regular expression) or gives a value that is truthy or not (\<open>Inr\<close>).
\<close>

fun entriesMatch ::
  "('pat \<Rightarrow> string \<Rightarrow> err + bool) \<Rightarrow> port \<Rightarrow> (string \<times> 'pat) list \<Rightarrow> err + bool" where
  "entriesMatch M pt [] = Inr True"
| "entriesMatch M pt ((key, re) # rest) =
     (case pt key of
        None \<Rightarrow> Inr False
      | Some (JString s) \<Rightarrow>
          (case M re s of
             Inl e \<Rightarrow> Inl e
           | Inr b \<Rightarrow> if \<not> b then Inr False else entriesMatch M pt rest)
      | Some _ \<Rightarrow> Inr False)"

text \<open>The outer loop: the first filter object whose entries all match returns true.\<close>

fun anyFilter ::
  "('pat \<Rightarrow> string \<Rightarrow> err + bool) \<Rightarrow> port \<Rightarrow> (string \<times> 'pat) list list \<Rightarrow> err + bool" where
  "anyFilter M pt [] = Inr False"
| "anyFilter M pt (f # fs) =
     (case entriesMatch M pt f of
        Inl e \<Rightarrow> Inl e
      | Inr b \<Rightarrow> if b then Inr True else anyFilter M pt fs)"

text \<open>
  \<^verbatim>\<open>serialPortMatchesFilter\<close>: it throws, or gives its answer and leaves the descriptor
  rewritten.
\<close>

definition serialPortMatchesFilter ::
  "'pat params \<Rightarrow> ('pat \<Rightarrow> string \<Rightarrow> err + bool) \<Rightarrow> port \<Rightarrow> err + bool \<times> port" where
  "serialPortMatchesFilter P M pt =
     (case normalizePort pt of
        Inl e \<Rightarrow> Inl e
      | Inr pt' \<Rightarrow>
          (case anyFilter M pt' (filters P) of
             Inl e \<Rightarrow> Inl e
           | Inr b \<Rightarrow> Inr (b, pt')))"

subsection \<open>The runtime: objects, promises, timers\<close>

text \<open>The promise that \<^verbatim>\<open>open\<close> returns; it resolves to \<^verbatim>\<open>this.serialPort\<close>, a reference or null.\<close>

datatype promise = Pending | Resolved "nat option" | Rejected err

text \<open>
  The two closures given to \<^verbatim>\<open>setTimeout\<close>: the retry in \<^verbatim>\<open>tryToOpen\<close>, which holds the
  \<^verbatim>\<open>resolve\<close> and \<^verbatim>\<open>reject\<close> of one promise, and the deadline of one call of \<^verbatim>\<open>probe\<close>.
\<close>

datatype timerCallback = RetryOpen nat | ProbeTimeout nat

text \<open>
  A \<^verbatim>\<open>SerialPort\<close> object. \<open>pendingOpen\<close> is the callback given to the constructor, until the
  host has called it; \<open>listeners\<close> are the \<^verbatim>\<open>'data'\<close> listeners, \<open>written\<close> the bytes written.
\<close>

record serialport =
  path :: "string option"
  baud :: nat
  lock :: bool
  isOpen :: bool
  pendingOpen :: "nat option"
  listeners :: "nat list"
  written :: buffer

text \<open>The promise that \<^verbatim>\<open>probe\<close> returns: it resolves to nothing.\<close>

datatype settlement = Unsettled | Fulfilled | Failed err

text \<open>
  The variables of one call of \<^verbatim>\<open>probe\<close>: \<^verbatim>\<open>timer\<close>, \<^verbatim>\<open>match\<close>, \<^verbatim>\<open>data\<close>, its promise, and
  the promise of \<^verbatim>\<open>open\<close> that its \<^verbatim>\<open>then\<close> and \<^verbatim>\<open>catch\<close> settle.
\<close>

record probing =
  timer :: nat
  match :: buffer
  data :: buffer
  outcome :: settlement
  owner :: nat

text \<open>
  The fields of the \<^verbatim>\<open>SerialProber\<close> instance (\<open>portName\<close>, \<open>lockAttempt\<close>, \<open>serialPort\<close>,
  \<open>lockTimer\<close>) and the runtime: the store of \<^verbatim>\<open>SerialPort\<close> objects, of probes and of
  promises, each addressed by a number, the pending timers as (id, due time, callback) in
  the order they were set, and the clock in milliseconds. Two fields only observe:
  \<open>settledAt\<close> records the clock when a promise settles, \<open>opened\<close> the argument of every
  call of \<^verbatim>\<open>open\<close>, in order (what its first line logs under \<^verbatim>\<open>DEBUG\<close>).
\<close>

record world =
  portName :: "string option"
  lockAttempt :: nat
  serialPort :: "nat option"
  lockTimer :: "nat option"
  heap :: "nat \<Rightarrow> serialport"
  nextPort :: nat
  probes :: "nat \<Rightarrow> probing"
  nextProbe :: nat
  promises :: "nat \<Rightarrow> promise"
  settledAt :: "nat \<Rightarrow> nat"
  opened :: "string list"
  nextPromise :: nat
  timers :: "(nat \<times> nat \<times> timerCallback) list"
  nextTimer :: nat
  now :: nat

definition MAX_OPEN_ATTEMPTS :: nat where
  "MAX_OPEN_ATTEMPTS = 5"

definition setTimeout :: "timerCallback \<Rightarrow> nat \<Rightarrow> world \<Rightarrow> nat \<times> world" where
  "setTimeout cb ms w =
     (nextTimer w,
      w\<lparr>timers := timers w @ [(nextTimer w, now w + ms, cb)], nextTimer := nextTimer w + 1\<rparr>)"

definition clearTimeout :: "nat \<Rightarrow> world \<Rightarrow> world" where
  "clearTimeout t w = w\<lparr>timers := filter (\<lambda>(i, due, cb). i \<noteq> t) (timers w)\<rparr>"

subsection \<open>The methods and closures of SerialProber\<close>

text \<open>\<^verbatim>\<open>close\<close>.\<close>

definition close :: "world \<Rightarrow> world" where
  "close w =
     (case serialPort w of
        None \<Rightarrow> w
      | Some h \<Rightarrow>
          if isOpen (heap w h)
          then w\<lparr>heap := (heap w)(h := (heap w h)\<lparr>isOpen := False\<rparr>),
                 serialPort := None, portName := None\<rparr>
          else w)"

text \<open>
  \<^verbatim>\<open>resolve\<close> and \<^verbatim>\<open>reject\<close> of the promise made in \<^verbatim>\<open>open\<close>. A settled promise stays as it
  is. The \<^verbatim>\<open>catch\<close> that \<^verbatim>\<open>open\<close> chains runs \<^verbatim>\<open>this.close()\<close> and throws the error again, so
  the promise the caller holds is rejected after the close.
\<close>

definition resolveOpen :: "nat \<Rightarrow> nat option \<Rightarrow> world \<Rightarrow> world" where
  "resolveOpen p v w =
     (if promises w p = Pending
      then w\<lparr>promises := (promises w)(p := Resolved v), settledAt := (settledAt w)(p := now w)\<rparr>
      else w)"

definition rejectOpen :: "nat \<Rightarrow> err \<Rightarrow> world \<Rightarrow> world" where
  "rejectOpen p e w =
     (if promises w p = Pending
      then (close w)\<lparr>promises := (promises w)(p := Rejected e),
                      settledAt := (settledAt w)(p := now w)\<rparr>
      else w)"

text \<open>
  \<^verbatim>\<open>resolve\<close> and \<^verbatim>\<open>reject\<close> of the promise made in \<^verbatim>\<open>probe\<close>, with the \<^verbatim>\<open>then\<close> and \<^verbatim>\<open>catch\<close>
  that the callback in \<^verbatim>\<open>tryToOpen\<close> chains to it: \<^verbatim>\<open>resolve(this.serialPort)\<close> and
  \<^verbatim>\<open>reject(err)\<close>.
\<close>

definition resolveProbe :: "nat \<Rightarrow> world \<Rightarrow> world" where
  "resolveProbe k w =
     (if outcome (probes w k) \<noteq> Unsettled then w
      else resolveOpen (owner (probes w k)) (serialPort w)
             (w\<lparr>probes := (probes w)(k := (probes w k)\<lparr>outcome := Fulfilled\<rparr>)\<rparr>))"

definition rejectProbe :: "nat \<Rightarrow> err \<Rightarrow> world \<Rightarrow> world" where
  "rejectProbe k e w =
     (if outcome (probes w k) \<noteq> Unsettled then w
      else rejectOpen (owner (probes w k)) e
             (w\<lparr>probes := (probes w)(k := (probes w k)\<lparr>outcome := Failed e\<rparr>)\<rparr>))"

text \<open>The message of the deadline; a template prints \<^verbatim>\<open>null\<close> as the word.\<close>

definition timeoutMsg :: "'pat params \<Rightarrow> string option \<Rightarrow> string" where
  "timeoutMsg P pn =
     ''SerialProber: timeout: '' @ name P @ '' dongle not detected on '' @
     (case pn of None \<Rightarrow> ''null'' | Some s \<Rightarrow> s)"

text \<open>
  \<^verbatim>\<open>probe\<close>, called for the promise \<open>p\<close> of \<^verbatim>\<open>open\<close>: the deadline is set first, then the
  listener is added to \<^verbatim>\<open>this.serialPort\<close> and the command written. With \<^verbatim>\<open>this.serialPort\<close>
  null the executor throws after the timer is set, which rejects the promise.
\<close>

definition probe :: "'pat params \<Rightarrow> nat \<Rightarrow> world \<Rightarrow> world" where
  "probe P p w =
     (let k = nextProbe w;
          (t, w1) = setTimeout (ProbeTimeout k) 500 w;
          w2 = w1\<lparr>probes := (probes w1)(k := \<lparr>timer = t, match = probeRsp P, data = [],
                                                outcome = Unsettled, owner = p\<rparr>),
                  nextProbe := k + 1\<rparr>
      in case serialPort w2 of
           None \<Rightarrow> rejectProbe k TypeError w2
         | Some h \<Rightarrow>
             w2\<lparr>heap := (heap w2)(h := (heap w2 h)
                    \<lparr>listeners := listeners (heap w2 h) @ [k],
                     written := written (heap w2 h) @ probeCmd P\<rparr>)\<rparr>)"

text \<open>The closure that \<^verbatim>\<open>probe\<close> gives to \<^verbatim>\<open>setTimeout\<close>, for the probe \<open>k\<close>.\<close>

definition probeTimeout :: "'pat params \<Rightarrow> nat \<Rightarrow> world \<Rightarrow> world" where
  "probeTimeout P k w = rejectProbe k (Str (timeoutMsg P (portName w))) w"

text \<open>The \<^verbatim>\<open>'data'\<close> listener of probe \<open>k\<close>.\<close>

definition dataListener :: "nat \<Rightarrow> buffer \<Rightarrow> world \<Rightarrow> world" where
  "dataListener k chunk w =
     (let d = data (probes w k) @ chunk;
          w1 = w\<lparr>probes := (probes w)(k := (probes w k)\<lparr>data := d\<rparr>)\<rparr>
      in if js_includes d (match (probes w1 k))
         then resolveProbe k (clearTimeout (timer (probes w1 k)) w1)
         else w1)"

text \<open>
  \<^verbatim>\<open>tryToOpen(resolve, reject)\<close>: a new \<^verbatim>\<open>SerialPort\<close> object for \<^verbatim>\<open>this.portName\<close>, stored in
  \<^verbatim>\<open>this.serialPort\<close>; its callback is pending. The constructor is taken to report every
  failure through the callback.
\<close>

definition tryToOpen :: "'pat params \<Rightarrow> nat \<Rightarrow> world \<Rightarrow> world" where
  "tryToOpen P p w =
     w\<lparr>heap := (heap w)(nextPort w :=
            \<lparr>path = portName w, baud = baudRate P, lock = True, isOpen = False,
             pendingOpen = Some p, listeners = [], written = []\<rparr>),
       nextPort := nextPort w + 1,
       serialPort := Some (nextPort w)\<rparr>"

text \<open>
  The callback given to \<^verbatim>\<open>new SerialPort\<close> in \<^verbatim>\<open>tryToOpen\<close>; \<open>e\<close> is \<^verbatim>\<open>err.message\<close>, or
  \<open>None\<close> when the port is open.
\<close>

definition openCallback :: "'pat params \<Rightarrow> nat \<Rightarrow> string option \<Rightarrow> world \<Rightarrow> world" where
  "openCallback P p e w =
     (case e of
        Some message \<Rightarrow>
          if js_includes message ''Cannot lock port''
          then (let w1 = w\<lparr>lockAttempt := lockAttempt w + 1\<rparr>
                in if lockAttempt w1 \<ge> MAX_OPEN_ATTEMPTS
                   then rejectOpen p (Error message) w1
                   else (let (t, w2) = setTimeout (RetryOpen p) 1000 w1
                         in w2\<lparr>lockTimer := Some t\<rparr>))
          else rejectOpen p (Error message) w
      | None \<Rightarrow> probe P p w)"

text \<open>\<^verbatim>\<open>open(portName)\<close>: the promise it returns and the state when it returns.\<close>

definition "open" :: "'pat params \<Rightarrow> string \<Rightarrow> world \<Rightarrow> nat \<times> world" where
  "open P pn w =
     (let p = nextPromise w;
          w1 = w\<lparr>portName := Some pn, lockAttempt := 0, opened := opened w @ [pn],
                 promises := (promises w)(p := Pending), nextPromise := p + 1\<rparr>
      in (p, tryToOpen P p w1))"

subsection \<open>The event loop\<close>

text \<open>
  The host finishes opening the object \<open>h\<close> with the outcome \<open>e\<close> and calls its callback,
  once.
\<close>

definition openDone :: "'pat params \<Rightarrow> nat \<Rightarrow> string option \<Rightarrow> world \<Rightarrow> world" where
  "openDone P h e w =
     (case pendingOpen (heap w h) of
        None \<Rightarrow> w
      | Some p \<Rightarrow>
          openCallback P p e
            (w\<lparr>heap := (heap w)(h := (heap w h)\<lparr>pendingOpen := None, isOpen := (e = None)\<rparr>)\<rparr>))"

text \<open>A chunk arrives on the open object \<open>h\<close>: its listeners run in the order they were added.\<close>

definition onData :: "nat \<Rightarrow> buffer \<Rightarrow> world \<Rightarrow> world" where
  "onData h chunk w =
     (if isOpen (heap w h)
      then fold (\<lambda>k. dataListener k chunk) (listeners (heap w h)) w
      else w)"

text \<open>A timer fires, not before it is due: it leaves the pending timers and its closure runs.\<close>

definition fire :: "'pat params \<Rightarrow> nat \<times> nat \<times> timerCallback \<Rightarrow> world \<Rightarrow> world" where
  "fire P tm w =
     (case tm of (t, due, cb) \<Rightarrow>
        (let w1 = (clearTimeout t w)\<lparr>now := max (now w) due\<rparr>
         in case cb of
              RetryOpen p \<Rightarrow> tryToOpen P p w1
            | ProbeTimeout k \<Rightarrow> probeTimeout P k w1))"

text \<open>The pending timer that is due first, the one set first among equals.\<close>

fun earliest :: "(nat \<times> nat \<times> timerCallback) list \<Rightarrow> (nat \<times> nat \<times> timerCallback) option" where
  "earliest [] = None"
| "earliest (tm # tms) =
     (case earliest tms of
        None \<Rightarrow> Some tm
      | Some tm' \<Rightarrow> if fst (snd tm) \<le> fst (snd tm') then Some tm else Some tm')"

text \<open>Nothing else happens until the next timer: the clock moves to it and it fires.\<close>

definition sleep :: "'pat params \<Rightarrow> world \<Rightarrow> world" where
  "sleep P w = (case earliest (timers w) of None \<Rightarrow> w | Some tm \<Rightarrow> fire P tm w)"

text \<open>
  \<open>ms\<close> milliseconds pass: the timers due by then fire in order. No closure of this
  program sets a timer while it runs as a timer, so there are at most as many firings as
  timers pending at the start.
\<close>

fun fireDue :: "'pat params \<Rightarrow> nat \<Rightarrow> nat \<Rightarrow> world \<Rightarrow> world" where
  "fireDue P 0 until w = w"
| "fireDue P (Suc n) until w =
     (case earliest (timers w) of
        None \<Rightarrow> w
      | Some tm \<Rightarrow> if fst (snd tm) \<le> until then fireDue P n until (fire P tm w) else w)"

definition advance :: "'pat params \<Rightarrow> nat \<Rightarrow> world \<Rightarrow> world" where
  "advance P ms w = (fireDue P (length (timers w)) (now w + ms) w)\<lparr>now := now w + ms\<rparr>"

text \<open>
  Nothing else happens until the promise \<open>p\<close> has settled: the pending timers fire one
  after the other, at most \<open>n\<close> of them.
\<close>

fun sleepUntil :: "'pat params \<Rightarrow> nat \<Rightarrow> nat \<Rightarrow> world \<Rightarrow> world" where
  "sleepUntil P p 0 w = w"
| "sleepUntil P p (Suc n) w =
     (if promises w p \<noteq> Pending then w else sleepUntil P p n (sleep P w))"

text \<open>
  The host side of a probe on the object \<open>h\<close>, until the promise \<open>p\<close> settles: each chunk
  comes with the time since the event before it; when no chunk is left the loop sleeps
  until the promise settles or no timer is left.
\<close>

fun receive :: "'pat params \<Rightarrow> nat \<Rightarrow> nat \<Rightarrow> (nat \<times> buffer) list \<Rightarrow> world \<Rightarrow> world" where
  "receive P p h [] w = sleepUntil P p (length (timers w)) w"
| "receive P p h ((gap, chunk) # rx) w =
     (if promises w p \<noteq> Pending then w
      else (let w1 = advance P gap w
            in if promises w1 p \<noteq> Pending then w1
               else receive P p h rx (onData h chunk w1)))"

text \<open>
  \<^verbatim>\<open>await\<close> on the promise \<open>p\<close> of \<^verbatim>\<open>open\<close>. The host answers the attempt in flight (the
  object in \<^verbatim>\<open>this.serialPort\<close>) with the next outcome of \<open>opens\<close>; after an error the loop
  sleeps until the retry, after a success the port delivers \<open>rx\<close>. \<open>None\<close>: the promise
  never settles, because the host never calls back.
\<close>

fun await :: "'pat params \<Rightarrow> nat \<Rightarrow> string option list \<Rightarrow> (nat \<times> buffer) list \<Rightarrow> world
              \<Rightarrow> world option" where
  "await P p [] rx w = (if promises w p = Pending then None else Some w)"
| "await P p (e # es) rx w =
     (if promises w p \<noteq> Pending then Some w
      else case serialPort w of
             None \<Rightarrow> None
           | Some h \<Rightarrow>
               (let w1 = openDone P h e w
                in if promises w1 p \<noteq> Pending then Some w1
                   else if e = None
                   then (let w2 = receive P p h rx w1
                         in if promises w2 p = Pending then None else Some w2)
                   else await P p es rx (sleep P w1)))"

text \<open>
  \<^verbatim>\<open>await this.open(portName)\<close> against a host that behaves as \<open>opens\<close> and \<open>rx\<close> say: how
  the promise settled, when, and the state then.
\<close>

definition awaitOpen ::
  "'pat params \<Rightarrow> string \<Rightarrow> string option list \<Rightarrow> (nat \<times> buffer) list \<Rightarrow> world
   \<Rightarrow> (promise \<times> nat \<times> world) option" where
  "awaitOpen P pn opens rx w =
     (case open P pn w of (p, w1) \<Rightarrow>
        (case await P p opens rx w1 of
           None \<Rightarrow> None
         | Some w' \<Rightarrow> Some (promises w' p, settledAt w' p, w')))"

subsection \<open>probeAll\<close>

text \<open>
  An element of the array \<^verbatim>\<open>probeAll\<close> returns (\<^verbatim>\<open>prober\<close> is the instance itself).
\<close>

record probeResult =
  port :: port
  handle :: "nat option"

text \<open>
  The loop of \<^verbatim>\<open>probeAll\<close> over the enumerated ports, each with the behaviour of the host
  when it is opened. Lines 146 to 149 stand before the \<^verbatim>\<open>try\<close>: what they throw ends the
  loop and rejects the promise of \<^verbatim>\<open>probeAll\<close> (\<open>Inl\<close>); what \<^verbatim>\<open>open\<close> rejects with is caught.
  \<open>None\<close>: an \<^verbatim>\<open>await\<close> never returns. (After line 149 has answered, \<^verbatim>\<open>port.comName\<close> is a
  string; the other case of the lookup is never taken.)
\<close>

fun probePorts ::
  "'pat params \<Rightarrow> ('pat \<Rightarrow> string \<Rightarrow> err + bool)
   \<Rightarrow> (port \<times> string option list \<times> (nat \<times> buffer) list) list
   \<Rightarrow> probeResult list \<Rightarrow> world \<Rightarrow> ((err + probeResult list) \<times> world) option" where
  "probePorts P M [] serialPorts w = Some (Inr serialPorts, w)"
| "probePorts P M ((pt, opens, rx) # rest) serialPorts w =
     (case normalizePort pt of
        Inl e \<Rightarrow> Some (Inl e, w)
      | Inr pt1 \<Rightarrow>
          (case serialPortMatchesFilter P M pt1 of
             Inl e \<Rightarrow> Some (Inl e, w)
           | Inr (ok, pt2) \<Rightarrow>
               if ok
               then (case pt2 ''comName'' of
                       Some (JString pn) \<Rightarrow>
                         (case awaitOpen P pn opens rx w of
                            None \<Rightarrow> None
                          | Some (Resolved sp, t, w') \<Rightarrow>
                              probePorts P M rest
                                (serialPorts @ [\<lparr>port = pt2, handle = sp\<rparr>]) w'
                          | Some (_, t, w') \<Rightarrow> probePorts P M rest serialPorts w')
                     | _ \<Rightarrow> Some (Inl TypeError, w))
               else probePorts P M rest serialPorts w))"

text \<open>
  \<^verbatim>\<open>probeAll\<close>: \<^verbatim>\<open>SerialPort.list()\<close> rejects with an error or gives the ports. \<open>Inl\<close>: the
  promise of \<^verbatim>\<open>probeAll\<close> is rejected; \<open>Inr\<close>: it resolves to the array.
\<close>

definition probeAll ::
  "'pat params \<Rightarrow> ('pat \<Rightarrow> string \<Rightarrow> err + bool)
   \<Rightarrow> err + (port \<times> string option list \<times> (nat \<times> buffer) list) list
   \<Rightarrow> world \<Rightarrow> ((err + probeResult list) \<times> world) option" where
  "probeAll P M listed w =
     (case listed of
        Inl e \<Rightarrow> Some (Inl e, w)
      | Inr ports \<Rightarrow> probePorts P M ports [] w)"

text \<open>A new instance in a new runtime: nothing made, nothing pending, the clock at 0.\<close>

definition init :: world where
  "init =
     \<lparr>portName = None, lockAttempt = 0, serialPort = None, lockTimer = None,
      heap = (\<lambda>h. \<lparr>path = None, baud = 0, lock = False, isOpen = False, pendingOpen = None,
                    listeners = [], written = []\<rparr>),
      nextPort = 0,
      probes = (\<lambda>k. \<lparr>timer = 0, match = [], data = [], outcome = Unsettled, owner = 0\<rparr>),
      nextProbe = 0,
      promises = (\<lambda>p. Pending), settledAt = (\<lambda>p. 0), opened = [], nextPromise = 0,
      timers = [], nextTimer = 0, now = 0\<rparr>"

subsection \<open>Notions for the statements and proofs\<close>

text \<open>
  An attempt of the promise \<open>p\<close> on the port \<open>pn\<close> is in flight, after \<open>a\<close> lock failures:
  no timer is pending, \<^verbatim>\<open>this.serialPort\<close> is the newest object and its callback has not
  been called, and the objects made since \<open>h0\<close> are for \<open>pn\<close> and not open.
\<close>

definition attempting :: "nat \<Rightarrow> string \<Rightarrow> nat \<Rightarrow> nat \<Rightarrow> world \<Rightarrow> bool" where
  "attempting p pn a h0 w \<longleftrightarrow>
     promises w p = Pending \<and> timers w = [] \<and> portName w = Some pn \<and> lockAttempt w = a \<and>
     h0 < nextPort w \<and> serialPort w = Some (nextPort w - 1) \<and>
     pendingOpen (heap w (nextPort w - 1)) = Some p \<and>
     listeners (heap w (nextPort w - 1)) = [] \<and>
     (\<forall>h. h0 \<le> h \<and> h < nextPort w \<longrightarrow> \<not> isOpen (heap w h) \<and> path (heap w h) = Some pn)"

text \<open>
  The probe \<open>k\<close> of the promise \<open>p\<close> listens on the open object \<open>h\<close>, has received \<open>d\<close>,
  and its deadline \<open>due\<close> is the one pending timer.
\<close>

definition listening ::
  "'pat params \<Rightarrow> nat \<Rightarrow> string \<Rightarrow> nat \<Rightarrow> nat \<Rightarrow> buffer \<Rightarrow> nat \<Rightarrow> world \<Rightarrow> bool" where
  "listening P p pn h k d due w \<longleftrightarrow>
     promises w p = Pending \<and> portName w = Some pn \<and> serialPort w = Some h \<and>
     isOpen (heap w h) \<and> listeners (heap w h) = [k] \<and> path (heap w h) = Some pn \<and>
     timers w = [(timer (probes w k), due, ProbeTimeout k)] \<and>
     match (probes w k) = probeRsp P \<and> data (probes w k) = d \<and> outcome (probes w k) = Unsettled \<and>
     owner (probes w k) = p \<and> now w < due"

text \<open>
  What a probe comes to, told from the chunks alone: with \<open>d\<close> received and \<open>remain\<close>
  milliseconds left, the time until the first chunk that completes \<open>m\<close>, or \<open>None\<close> when
  the deadline comes first.
\<close>

fun scan :: "buffer \<Rightarrow> buffer \<Rightarrow> nat \<Rightarrow> (nat \<times> buffer) list \<Rightarrow> nat option" where
  "scan m d remain [] = None"
| "scan m d remain ((gap, chunk) # rx) =
     (if remain \<le> gap then None
      else if js_includes (d @ chunk) m then Some gap
      else map_option (\<lambda>t. gap + t) (scan m (d @ chunk) (remain - gap) rx))"

datatype ending = Matched | GaveUp err

text \<open>
  What an open comes to, told from the behaviour of the host alone, after \<open>a\<close> lock
  failures: how it ends, after how many retries and how many milliseconds; \<open>None\<close> when
  the host stops answering.
\<close>

fun foresee ::
  "'pat params \<Rightarrow> string \<Rightarrow> nat \<Rightarrow> string option list \<Rightarrow> (nat \<times> buffer) list
   \<Rightarrow> (ending \<times> nat \<times> nat) option" where
  "foresee P pn a [] rx = None"
| "foresee P pn a (None # es) rx =
     Some (case scan (probeRsp P) [] 500 rx of
             Some t \<Rightarrow> (Matched, 0, t)
           | None \<Rightarrow> (GaveUp (Str (timeoutMsg P (Some pn))), 0, 500))"
| "foresee P pn a (Some m # es) rx =
     (if js_includes m ''Cannot lock port'' \<and> Suc a < MAX_OPEN_ATTEMPTS
      then map_option (\<lambda>(e, k, t). (e, Suc k, t + 1000)) (foresee P pn (Suc a) es rx)
      else Some (GaveUp (Error m), 0, 0))"

text \<open>
  The state \<open>w'\<close> in which the promise \<open>p\<close>, awaited from \<open>w\<close>, has settled as \<open>e\<close> after
  \<open>k\<close> retries and \<open>t\<close> milliseconds.
\<close>

definition ended ::
  "nat \<Rightarrow> string \<Rightarrow> nat \<Rightarrow> world \<Rightarrow> ending \<Rightarrow> nat \<Rightarrow> nat \<Rightarrow> world \<Rightarrow> bool" where
  "ended p pn h0 w e k t w' \<longleftrightarrow>
     promises w' p =
       (case e of Matched \<Rightarrow> Resolved (Some (nextPort w + k - 1)) | GaveUp x \<Rightarrow> Rejected x) \<and>
     settledAt w' p = now w + t \<and> nextPort w' = nextPort w + k \<and> timers w' = [] \<and>
     (\<forall>h. h0 \<le> h \<and> h < nextPort w' \<longrightarrow>
        path (heap w' h) = Some pn \<and>
        (isOpen (heap w' h) \<longleftrightarrow> e = Matched \<and> h = nextPort w' - 1)) \<and>
     (\<forall>h<h0. heap w' h = heap w h)"

text \<open>The chunks that arrive before \<open>d\<close> milliseconds have passed.\<close>

fun early :: "nat \<Rightarrow> (nat \<times> 'a) list \<Rightarrow> (nat \<times> 'a) list" where
  "early d [] = []"
| "early d ((gap, chunk) # rx) = (if d \<le> gap then [] else (gap, chunk) # early (d - gap) rx)"

text \<open>Opening the port \<open>pn\<close> succeeds, for a new instance, against this host.\<close>

definition resolves ::
  "'pat params \<Rightarrow> string \<Rightarrow> string option list \<Rightarrow> (nat \<times> buffer) list \<Rightarrow> bool" where
  "resolves P pn opens rx =
     (case awaitOpen P pn opens rx init of Some (Resolved v, t, w') \<Rightarrow> True | _ \<Rightarrow> False)"

text \<open>
  An enumerated port, with the behaviour of its host: the filter answers true for it
  (\<open>passes\<close>), answers false (\<open>excluded\<close>); the descriptor as the filter leaves it and its
  path; the filter answers true and the open succeeds (\<open>wanted\<close>).
\<close>

definition passes ::
  "'pat params \<Rightarrow> ('pat \<Rightarrow> string \<Rightarrow> err + bool)
   \<Rightarrow> port \<times> string option list \<times> (nat \<times> buffer) list \<Rightarrow> bool" where
  "passes P M c =
     (case serialPortMatchesFilter P M (fst c) of Inr (b, q) \<Rightarrow> b | Inl e \<Rightarrow> False)"

definition excluded ::
  "'pat params \<Rightarrow> ('pat \<Rightarrow> string \<Rightarrow> err + bool)
   \<Rightarrow> port \<times> string option list \<times> (nat \<times> buffer) list \<Rightarrow> bool" where
  "excluded P M c =
     (case serialPortMatchesFilter P M (fst c) of Inr (b, q) \<Rightarrow> \<not> b | Inl e \<Rightarrow> False)"

definition descriptor ::
  "'pat params \<Rightarrow> ('pat \<Rightarrow> string \<Rightarrow> err + bool)
   \<Rightarrow> port \<times> string option list \<times> (nat \<times> buffer) list \<Rightarrow> port" where
  "descriptor P M c =
     (case serialPortMatchesFilter P M (fst c) of Inr (b, q) \<Rightarrow> q | Inl e \<Rightarrow> fst c)"

definition pathOf :: "port \<Rightarrow> string" where
  "pathOf pt = (case pt ''comName'' of Some (JString s) \<Rightarrow> s | _ \<Rightarrow> [])"


text \<open>
  What happens to one probe: a chunk reaches its listener, or its deadline fires. The
  bytes of the chunks of a sequence of such events, and the events run on the probe \<open>k\<close>.
\<close>

datatype probeEvent = Chunk buffer | Deadline

fun received :: "probeEvent list \<Rightarrow> buffer" where
  "received [] = []"
| "received (Chunk c # evs) = c @ received evs"
| "received (Deadline # evs) = received evs"

fun probeEvents :: "'pat params \<Rightarrow> nat \<Rightarrow> probeEvent list \<Rightarrow> world \<Rightarrow> world" where
  "probeEvents P k [] w = w"
| "probeEvents P k (Chunk c # evs) w = probeEvents P k evs (dataListener k c w)"
| "probeEvents P k (Deadline # evs) w = probeEvents P k evs (probeTimeout P k w)"

text \<open>The events before the deadline: chunks only.\<close>

definition beforeDeadline :: "probeEvent list \<Rightarrow> probeEvent list" where
  "beforeDeadline evs = takeWhile (\<lambda>ev. ev \<noteq> Deadline) evs"

text \<open>
  A match is found among these events: some chunk before the deadline completes the
  pattern \<open>m\<close> in the buffer, which holds \<open>d\<close> at first.
\<close>

fun detects :: "buffer \<Rightarrow> buffer \<Rightarrow> probeEvent list \<Rightarrow> bool" where
  "detects m d [] = False"
| "detects m d (Chunk c # evs) = (js_includes (d @ c) m \<or> detects m (d @ c) evs)"
| "detects m d (Deadline # evs) = False"

text \<open>
  What can happen to an instance, one event at a time: the caller calls \<^verbatim>\<open>open\<close> or
  \<^verbatim>\<open>close\<close>; the host answers the attempt on an object; a chunk arrives on an object; the
  timer with some id fires.
\<close>

datatype event = Opens string | Closes | Answers nat "string option" | Arrives nat buffer | Fires nat

text \<open>The pending timer with the id \<open>t\<close>.\<close>

definition pendingTimer :: "nat \<Rightarrow> world \<Rightarrow> (nat \<times> nat \<times> timerCallback) option" where
  "pendingTimer t w = (case filter (\<lambda>tm. fst tm = t) (timers w) of [] \<Rightarrow> None | tm # tms \<Rightarrow> Some tm)"

text \<open>One event, and a sequence of them in any order (\<open>run\<close>, below).\<close>

fun step :: "'pat params \<Rightarrow> event \<Rightarrow> world \<Rightarrow> world" where
  "step P (Opens pn) w = snd (open P pn w)"
| "step P Closes w = close w"
| "step P (Answers h e) w = openDone P h e w"
| "step P (Arrives h c) w = onData h c w"
| "step P (Fires t) w = (case pendingTimer t w of None \<Rightarrow> w | Some tm \<Rightarrow> fire P tm w)"

text \<open>
  What the probe \<open>k\<close> gets of an event in the state \<open>w\<close>: the chunk, once for each time
  its listener is on the object, when the object is open; its deadline, when the timer
  that fires is its own; nothing otherwise. And what it gets of a sequence of events.
\<close>

fun heard :: "nat \<Rightarrow> event \<Rightarrow> world \<Rightarrow> probeEvent list" where
  "heard k (Arrives h c) w =
     (if isOpen (heap w h)
      then map (\<lambda>j. Chunk c) (filter (\<lambda>j. j = k) (listeners (heap w h)))
      else [])"
| "heard k (Fires t) w =
     (case pendingTimer t w of
        Some (i, due, ProbeTimeout j) \<Rightarrow> if j = k then [Deadline] else []
      | _ \<Rightarrow> [])"
| "heard k ev w = []"

fun trace :: "'pat params \<Rightarrow> nat \<Rightarrow> event list \<Rightarrow> world \<Rightarrow> probeEvent list" where
  "trace P k [] w = []"
| "trace P k (ev # evs) w = heard k ev w @ trace P k evs (step P ev w)"

fun run :: "'pat params \<Rightarrow> event list \<Rightarrow> world \<Rightarrow> world" where
  "run P [] w = w"
| "run P (ev # evs) w = run P evs (step P ev w)"

text \<open>
  The variables \<open>r\<close> of a probe have become \<open>r'\<close> by the events \<open>xs\<close> on it: the buffer has
  grown by the chunks, and the probe has settled as the events say.
\<close>

definition follows :: "probing \<Rightarrow> probing \<Rightarrow> probeEvent list \<Rightarrow> bool" where
  "follows r r' xs \<longleftrightarrow>
     match r' = match r \<and> data r' = data r @ received xs \<and>
     (outcome r \<noteq> Unsettled \<longrightarrow> outcome r' = outcome r) \<and>
     (outcome r = Unsettled \<longrightarrow>
        (outcome r' = Fulfilled \<longleftrightarrow> detects (match r) (data r) xs) \<and>
        (outcome r' = Unsettled \<longleftrightarrow> \<not> detects (match r) (data r) xs \<and> Deadline \<notin> set xs))"

text \<open>
  From \<open>w\<close> to \<open>w'\<close> no call of \<^verbatim>\<open>open\<close> was made, no object was lost and no object changed
  its path.
\<close>

definition grows :: "world \<Rightarrow> world \<Rightarrow> bool" where
  "grows w w' \<longleftrightarrow>
     nextPort w \<le> nextPort w' \<and> opened w' = opened w \<and>
     (\<forall>h<nextPort w. path (heap w' h) = path (heap w h))"

text \<open>
  And, from \<open>w\<close> to \<open>w'\<close>, \<^verbatim>\<open>this.portName\<close> has stayed or become null, and each object made is on
  the path that \<^verbatim>\<open>this.portName\<close> held in \<open>w\<close>, or on none.
\<close>

definition confined :: "world \<Rightarrow> world \<Rightarrow> bool" where
  "confined w w' \<longleftrightarrow>
     grows w w' \<and> (portName w' = portName w \<or> portName w' = None) \<and>
     (\<forall>h<nextPort w'. h < nextPort w \<or> path (heap w' h) = portName w \<or>
          path (heap w' h) = None)"

text \<open>How and when an awaited open ended, and the state then (the new instance if never).\<close>

definition verdict :: "(promise \<times> nat \<times> world) option \<Rightarrow> (promise \<times> nat) option" where
  "verdict r = (case r of None \<Rightarrow> None | Some (v, t, w) \<Rightarrow> Some (v, t))"

definition finalState :: "(promise \<times> nat \<times> world) option \<Rightarrow> world" where
  "finalState r = (case r of None \<Rightarrow> init | Some (v, t, w) \<Rightarrow> w)"

text \<open>The handles in the results of a \<^verbatim>\<open>probeAll\<close>, and the state it leaves.\<close>

definition handles :: "((err + probeResult list) \<times> world) option \<Rightarrow> nat option list" where
  "handles r = (case r of Some (Inr rs, w) \<Rightarrow> map handle rs | _ \<Rightarrow> [])"

definition endState :: "((err + probeResult list) \<times> world) option \<Rightarrow> world" where
  "endState r = (case r of Some (v, w) \<Rightarrow> w | None \<Rightarrow> init)"

subsection \<open>Examples\<close>

text \<open>
  Patterns for the examples, by what they denote: the regular expression that matches
  the text \<open>l\<close> itself wherever it occurs, the one that matches it at the start
  (\<^verbatim>\<open>^l\<close>), the one that matches it as the whole string (\<^verbatim>\<open>^l$\<close>), each with the characters
  of \<open>l\<close> taken literally, and a string that is no regular expression (such as \<^verbatim>\<open>(\<close>).
\<close>

datatype pattern = Literal string | Prefix string | Whole string | Malformed

fun exampleMatch :: "pattern \<Rightarrow> string \<Rightarrow> err + bool" where
  "exampleMatch (Literal l) s = Inr (js_includes s l)"
| "exampleMatch (Prefix l) s = Inr (startsWith s l)"
| "exampleMatch (Whole l) s = Inr (s = l)"
| "exampleMatch Malformed s = Inl SyntaxError"

text \<open>
  A probe specification with two filter groups, \<^verbatim>\<open>{vendor: "^FTDI$"}\<close> and
  \<^verbatim>\<open>{product: "^CP210"}\<close>, and one whose only pattern is malformed.
\<close>

definition exampleParams :: "pattern params" where
  "exampleParams =
     \<lparr>name = ''zwave'', baudRate = 115200, probeCmd = [1, 2], probeRsp = [79, 75],
      filters = [[(''vendor'', Whole ''FTDI'')], [(''product'', Prefix ''CP210'')]]\<rparr>"


text \<open>A filter on the path: the ports whose path starts with \<^verbatim>\<open>/dev/cu.usb\<close>.\<close>

definition pathParams :: "pattern params" where
  "pathParams = exampleParams\<lparr>filters := [[(''comName'', Prefix ''/dev/cu.usb'')]]\<rparr>"

definition lockError :: string where
  "lockError = ''Error: Resource temporarily unavailable Cannot lock port''"

text \<open>
  Three descriptors: a USB port of the first vendor, with no product; a port whose
  vendor is not a string; a port of another vendor with a product of the second group.
\<close>

definition examplePort :: port where
  "examplePort = [''comName'' \<mapsto> JString ''/dev/tty.usbABC'', ''vendor'' \<mapsto> JString ''FTDI'']"

definition otherPort :: port where
  "otherPort = [''comName'' \<mapsto> JString ''/dev/ttyS0'', ''vendor'' \<mapsto> JNumber 1027]"

definition silabsPort :: port where
  "silabsPort = [''comName'' \<mapsto> JString ''/dev/ttyUSB1'', ''vendor'' \<mapsto> JString ''Other'',
     ''product'' \<mapsto> JString ''CP2104'']"

text \<open>
  The three ports enumerated: the second fails the filter, the first passes it and never
  answers the probe, the third is locked once, then opens and answers in two chunks.
\<close>

definition exampleHost :: "(port \<times> string option list \<times> (nat \<times> buffer) list) list" where
  "exampleHost =
     [(otherPort, [None, None, None, None, None], []),
      (examplePort, [None, None, None, None, None], [(10, [1, 2, 3])]),
      (silabsPort, [Some lockError, None, None, None, None], [(10, [1, 79]), (20, [75])])]"

text \<open>The example port is open and its probe is listening.\<close>

definition exampleOpened :: world where
  "exampleOpened = openDone exampleParams 0 None (snd (open exampleParams ''/dev/ttyUSB0'' init))"

text \<open>
  The host has opened the example port and is about to call the callback of
  \<^verbatim>\<open>tryToOpen\<close>, which starts the probe.
\<close>

definition exampleAnswered :: world where
  "exampleAnswered =
     (snd (open exampleParams ''/dev/ttyUSB0'' init))
       \<lparr>heap := (heap (snd (open exampleParams ''/dev/ttyUSB0'' init)))
          (0 := (heap (snd (open exampleParams ''/dev/ttyUSB0'' init)) 0)
                  \<lparr>pendingOpen := None, isOpen := True\<rparr>)\<rparr>"

text \<open>The first attempt on the example port has met a lock failure: the retry is pending.\<close>

definition exampleLocked :: world where
  "exampleLocked = openDone exampleParams 0 (Some lockError) (snd (open exampleParams ''/dev/ttyUSB0'' init))"

text \<open>
  Two states that the caller reaches by \<^verbatim>\<open>close()\<close> in the middle of an open: 600 ms
  after a \<^verbatim>\<open>close()\<close> during the wait for a retry, and 100 ms after a \<^verbatim>\<open>close()\<close> during a
  probe. In both a timer of the abandoned open is pending.
\<close>

definition staleRetry :: world where
  "staleRetry = advance exampleParams 600 (close exampleLocked)"

definition staleProbe :: world where
  "staleProbe = advance exampleParams 100 (close exampleOpened)"

section \<open>Properties\<close>

subsection \<open>Strings, filters, close\<close>

lemma startsWith_prefix: "startsWith s p = prefix p s"
  by (induction s p rule: startsWith.induct) auto

lemma js_includes_sublist: "js_includes d m = sublist m d"
  by (induction d) (auto simp: startsWith_prefix sublist_Cons_right)

lemma replace_at_start: "startsWith s pat \<Longrightarrow> replace s pat rep = rep @ drop (length pat) s"
  by (cases s) (auto simp: startsWith_prefix)

lemma normalizePort_usb:
  "pt ''comName'' = Some (JString (''/dev/tty.usb'' @ x)) \<Longrightarrow>
     normalizePort pt = Inr (pt(''comName'' \<mapsto> JString (''/dev/cu.usb'' @ x)))"
  by (simp add: normalizePort_def)

lemma normalizePort_other:
  "pt ''comName'' = Some (JString s) \<Longrightarrow> \<not> startsWith s ''/dev/tty.usb'' \<Longrightarrow>
     normalizePort pt = Inr pt"
  by (simp add: normalizePort_def)

lemma startsWith_usb: "startsWith s ''/dev/tty.usb'' \<longleftrightarrow> (\<exists>x. s = ''/dev/tty.usb'' @ x)"
  by (auto simp: startsWith_prefix prefix_def)

lemma normalizePort_string:
  "normalizePort pt = Inr q \<Longrightarrow>
     \<exists>s. q ''comName'' = Some (JString s) \<and> \<not> startsWith s ''/dev/tty.usb''"
  by (auto simp: normalizePort_def startsWith_usb split: option.splits jsvalue.splits if_splits)

lemma normalizePort_idem: "normalizePort pt = Inr q \<Longrightarrow> normalizePort q = Inr q"
  using normalizePort_string[of pt q] by (auto simp: normalizePort_other)

lemma pathOf_normalized:
  "normalizePort pt = Inr q \<Longrightarrow> q ''comName'' = Some (JString (pathOf q))"
  using normalizePort_string[of pt q] by (auto simp: pathOf_def)

lemma entriesMatch_True:
  "entriesMatch M pt f = Inr True \<longleftrightarrow>
     (\<forall>(key, re) \<in> set f. \<exists>s. pt key = Some (JString s) \<and> M re s = Inr True)"
  by (induction M pt f rule: entriesMatch.induct)
    (auto split: option.splits jsvalue.splits sum.splits)

lemma entriesMatch_False:
  "entriesMatch M pt f = Inr False \<Longrightarrow>
     \<not> (\<forall>(key, re) \<in> set f. \<exists>s. pt key = Some (JString s) \<and> M re s = Inr True)"
  using entriesMatch_True[of M pt f] by auto

lemma entriesMatch_total:
  "\<forall>(key, re) \<in> set f. \<forall>s. \<not> isl (M re s) \<Longrightarrow> \<not> isl (entriesMatch M pt f)"
proof (induction M pt f rule: entriesMatch.induct)
  case (1 M pt)
  then show ?case by simp
next
  case (2 M pt key re rest)
  have here: "\<not> isl (M re s)" for s using "2.prems" by simp
  have rest: "\<forall>(key, re) \<in> set rest. \<forall>s. \<not> isl (M re s)" using "2.prems" by simp
  show ?case
  proof (cases "pt key")
    case None
    then show ?thesis by simp
  next
    case (Some v)
    show ?thesis
    proof (cases v)
      case (JString s)
      obtain b where b: "M re s = Inr b" using here[of s] by (cases "M re s") auto
      show ?thesis
        using "2.IH"[OF Some JString b _ rest] Some JString b by (cases b) auto
    qed (use Some in auto)
  qed
qed

lemma anyFilter_iff:
  "anyFilter M pt fs = Inr b \<Longrightarrow>
     b \<longleftrightarrow> (\<exists>f \<in> set fs. \<forall>(key, re) \<in> set f. \<exists>s. pt key = Some (JString s) \<and> M re s = Inr True)"
proof (induction fs)
  case Nil
  then show ?case by auto
next
  case (Cons f fs)
  show ?case
  proof (cases "entriesMatch M pt f")
    case (Inl e)
    then show ?thesis using Cons.prems by simp
  next
    case (Inr c)
    show ?thesis
    proof (cases c)
      case True
      then show ?thesis using Inr Cons.prems entriesMatch_True[of M pt f] by auto
    next
      case False
      then have "anyFilter M pt fs = Inr b" using Inr Cons.prems by simp
      then show ?thesis using Cons.IH entriesMatch_False[of M pt f] Inr False by auto
    qed
  qed
qed

lemma anyFilter_total:
  "\<forall>f \<in> set fs. \<forall>(key, re) \<in> set f. \<forall>s. \<not> isl (M re s) \<Longrightarrow> \<not> isl (anyFilter M pt fs)"
proof (induction fs)
  case Nil
  then show ?case by simp
next
  case (Cons f fs)
  have "\<not> isl (entriesMatch M pt f)" using Cons.prems by (intro entriesMatch_total) simp
  moreover have "\<not> isl (anyFilter M pt fs)" using Cons by simp
  ultimately show ?case by (auto split: sum.splits)
qed

lemma filter_normalized:
  "normalizePort pt = Inr q \<Longrightarrow> serialPortMatchesFilter P M q = serialPortMatchesFilter P M pt"
  by (simp add: serialPortMatchesFilter_def normalizePort_idem)

lemma filter_leaves:
  "serialPortMatchesFilter P M pt = Inr (b, q) \<Longrightarrow> normalizePort pt = Inr q"
  by (auto simp: serialPortMatchesFilter_def split: sum.splits)

lemma close_idem: "close (close w) = close w"
  by (simp add: close_def split: option.splits)

lemma close_noop: "serialPort w = None \<or> (\<exists>h. serialPort w = Some h \<and> \<not> isOpen (heap w h)) \<Longrightarrow> close w = w"
  by (auto simp add: close_def split: option.splits)

lemma close_closes: "serialPort w = Some h \<Longrightarrow> isOpen (heap w h) \<Longrightarrow> \<not> isOpen (heap (close w) h) \<and> serialPort (close w) = None"
  by (auto simp add: close_def split: option.splits)


subsection \<open>One step of an open\<close>

lemma open_attempting:
  "timers w = [] \<Longrightarrow> open P pn w = (p, w1) \<Longrightarrow>
     p = nextPromise w \<and> attempting p pn 0 (nextPort w) w1 \<and> nextPort w1 = Suc (nextPort w) \<and> now w1 = now w
     \<and> (\<forall>h < nextPort w. heap w1 h = heap w h)"
  by (auto simp: open_def tryToOpen_def attempting_def Let_def)

lemma retry_step:
  assumes "attempting p pn a h0 w" "js_includes m ''Cannot lock port''" "Suc a < MAX_OPEN_ATTEMPTS"
  shows "promises (openDone P (nextPort w - 1) (Some m) w) p = Pending"
    and "attempting p pn (Suc a) h0 (sleep P (openDone P (nextPort w - 1) (Some m) w))"
    and "now (sleep P (openDone P (nextPort w - 1) (Some m) w)) = now w + 1000"
    and "nextPort (sleep P (openDone P (nextPort w - 1) (Some m) w)) = Suc (nextPort w)"
    and "\<forall>h<h0. heap (sleep P (openDone P (nextPort w - 1) (Some m) w)) h = heap w h"
  using assms
  by (auto simp: attempting_def openDone_def openCallback_def setTimeout_def sleep_def fire_def
      clearTimeout_def tryToOpen_def Let_def)

lemma giveup_step:
  assumes "attempting p pn a h0 w" "js_includes m ''Cannot lock port''" "\<not> Suc a < MAX_OPEN_ATTEMPTS"
  shows "promises (openDone P (nextPort w - 1) (Some m) w) p = Rejected (Error m)"
    and "settledAt (openDone P (nextPort w - 1) (Some m) w) p = now w"
    and "timers (openDone P (nextPort w - 1) (Some m) w) = []"
    and "nextPort (openDone P (nextPort w - 1) (Some m) w) = nextPort w"
    and "\<forall>h. h0 \<le> h \<and> h < nextPort w \<longrightarrow> \<not> isOpen (heap (openDone P (nextPort w - 1) (Some m) w) h)
            \<and> path (heap (openDone P (nextPort w - 1) (Some m) w) h) = Some pn"
    and "\<forall>h<h0. heap (openDone P (nextPort w - 1) (Some m) w) h = heap w h"
  using assms
  by (auto simp: attempting_def openDone_def openCallback_def rejectOpen_def close_def Let_def)

lemma refused_step:
  assumes "attempting p pn a h0 w" "\<not> js_includes m ''Cannot lock port''"
  shows "promises (openDone P (nextPort w - 1) (Some m) w) p = Rejected (Error m)"
    and "settledAt (openDone P (nextPort w - 1) (Some m) w) p = now w"
    and "timers (openDone P (nextPort w - 1) (Some m) w) = []"
    and "nextPort (openDone P (nextPort w - 1) (Some m) w) = nextPort w"
    and "\<forall>h. h0 \<le> h \<and> h < nextPort w \<longrightarrow> \<not> isOpen (heap (openDone P (nextPort w - 1) (Some m) w) h)
            \<and> path (heap (openDone P (nextPort w - 1) (Some m) w) h) = Some pn"
    and "\<forall>h<h0. heap (openDone P (nextPort w - 1) (Some m) w) h = heap w h"
  using assms
  by (auto simp: attempting_def openDone_def openCallback_def rejectOpen_def close_def Let_def)

lemma opened_step:
  assumes "attempting p pn a h0 w"
  shows "listening P p pn (nextPort w - 1) (nextProbe w) [] (now w + 500) (openDone P (nextPort w - 1) None w)"
    and "nextPort (openDone P (nextPort w - 1) None w) = nextPort w"
    and "now (openDone P (nextPort w - 1) None w) = now w"
    and "\<forall>h. h \<noteq> nextPort w - 1 \<longrightarrow> heap (openDone P (nextPort w - 1) None w) h = heap w h"
  using assms
  by (auto simp: attempting_def listening_def openDone_def openCallback_def probe_def setTimeout_def Let_def)

lemma deadline_step:
  assumes "listening P p pn h k d due w"
  shows "promises (sleep P w) p = Rejected (Str (timeoutMsg P (Some pn)))"
    and "settledAt (sleep P w) p = due"
    and "timers (sleep P w) = []"
    and "nextPort (sleep P w) = nextPort w"
    and "\<not> isOpen (heap (sleep P w) h)"
    and "path (heap (sleep P w) h) = Some pn"
    and "\<forall>h'. h' \<noteq> h \<longrightarrow> heap (sleep P w) h' = heap w h'"
  using assms
  by (auto simp: listening_def sleep_def fire_def probeTimeout_def clearTimeout_def rejectProbe_def rejectOpen_def
      close_def Let_def)

lemma late_step:
  assumes "listening P p pn h k d due w" "due \<le> now w + gap"
  shows "promises (advance P gap w) p = Rejected (Str (timeoutMsg P (Some pn)))"
    and "settledAt (advance P gap w) p = due"
    and "timers (advance P gap w) = []"
    and "nextPort (advance P gap w) = nextPort w"
    and "\<not> isOpen (heap (advance P gap w) h)"
    and "path (heap (advance P gap w) h) = Some pn"
    and "\<forall>h'. h' \<noteq> h \<longrightarrow> heap (advance P gap w) h' = heap w h'"
  using assms
  by (auto simp: listening_def advance_def fire_def probeTimeout_def clearTimeout_def rejectProbe_def rejectOpen_def
      close_def Let_def)

lemma early_step:
  assumes "listening P p pn h k d due w" "now w + gap < due"
  shows "advance P gap w = w\<lparr>now := now w + gap\<rparr>"
  using assms
  by (auto simp: listening_def advance_def)

lemma listening_later:
  assumes "listening P p pn h k d due w" "now w + gap < due"
  shows "listening P p pn h k d due (w\<lparr>now := now w + gap\<rparr>)"
  using assms by (auto simp: listening_def)

lemma match_step:
  assumes "listening P p pn h k d due w" "js_includes (d @ chunk) (probeRsp P)"
  shows "promises (onData h chunk w) p = Resolved (Some h)"
    and "settledAt (onData h chunk w) p = now w"
    and "timers (onData h chunk w) = []"
    and "nextPort (onData h chunk w) = nextPort w"
    and "heap (onData h chunk w) = heap w"
  using assms
  by (auto simp: listening_def onData_def dataListener_def clearTimeout_def resolveProbe_def
      resolveOpen_def Let_def)

lemma nomatch_step:
  assumes "listening P p pn h k d due w" "\<not> js_includes (d @ chunk) (probeRsp P)"
  shows "listening P p pn h k (d @ chunk) due (onData h chunk w)"
    and "nextPort (onData h chunk w) = nextPort w"
    and "now (onData h chunk w) = now w"
    and "heap (onData h chunk w) = heap w"
  using assms
  by (auto simp: listening_def onData_def dataListener_def Let_def)

lemma listening_sleepUntil:
  assumes "listening P p pn h k d due w"
  shows "sleepUntil P p (length (timers w)) w = sleep P w"
  using assms by (simp add: listening_def)

lemma sleepUntil_settled: "promises w p \<noteq> Pending \<Longrightarrow> sleepUntil P p n w = w"
  by (cases n) auto

lemma receive_settled: "promises w p \<noteq> Pending \<Longrightarrow> receive P p h rx w = w"
  by (cases rx) (auto simp: sleepUntil_settled)

lemma receive_scan:
  assumes "listening P p pn h k d due w"
  shows "(case scan (probeRsp P) d (due - now w) rx of
           Some t \<Rightarrow> promises (receive P p h rx w) p = Resolved (Some h) \<and>
                     settledAt (receive P p h rx w) p = now w + t \<and>
                     isOpen (heap (receive P p h rx w) h)
         | None \<Rightarrow> promises (receive P p h rx w) p = Rejected (Str (timeoutMsg P (Some pn))) \<and>
                   settledAt (receive P p h rx w) p = due \<and>
                   \<not> isOpen (heap (receive P p h rx w) h)) \<and>
         timers (receive P p h rx w) = [] \<and> nextPort (receive P p h rx w) = nextPort w \<and>
         path (heap (receive P p h rx w) h) = Some pn \<and>
         (\<forall>h'. h' \<noteq> h \<longrightarrow> heap (receive P p h rx w) h' = heap w h')"
  using assms
proof (induction rx arbitrary: w d)
  case Nil
  have pend: "promises w p = Pending" using Nil by (simp add: listening_def)
  show ?case using deadline_step[OF Nil] pend by (simp add: listening_sleepUntil[OF Nil])
next
  case (Cons x rx)
  obtain gap chunk where x: "x = (gap, chunk)" by (cases x)
  have pend: "promises w p = Pending" using Cons.prems by (simp add: listening_def)
  have lt: "now w < due" using Cons.prems by (simp add: listening_def)
  show ?case
  proof (cases "due \<le> now w + gap")
    case True
    then have "due - now w \<le> gap" by simp
    then show ?thesis using late_step[OF Cons.prems True] pend x by simp
  next
    case False
    then have early: "now w + gap < due" by simp
    let ?w1 = "w\<lparr>now := now w + gap\<rparr>"
    have adv: "advance P gap w = ?w1" by (rule early_step[OF Cons.prems early])
    have l1: "listening P p pn h k d due ?w1" by (rule listening_later[OF Cons.prems early])
    have pend1: "promises ?w1 p = Pending" using pend by simp
    have nle: "\<not> due - now w \<le> gap" using early by simp
    show ?thesis
    proof (cases "js_includes (d @ chunk) (probeRsp P)")
      case True
      have s: "promises (onData h chunk ?w1) p \<noteq> Pending"
        using match_step(1)[OF l1 True] by simp
      have op: "isOpen (heap ?w1 h)" using l1 by (simp add: listening_def)
      have pa: "path (heap ?w1 h) = Some pn" using l1 by (simp add: listening_def)
      show ?thesis
        using match_step[OF l1 True] True nle pend pend1 adv x op pa
        by (simp add: receive_settled[OF s])
    next
      case False
      note l2 = nomatch_step[OF l1 False]
      have ih: "(case scan (probeRsp P) (d @ chunk) (due - now (onData h chunk ?w1)) rx of
           Some t \<Rightarrow> promises (receive P p h rx (onData h chunk ?w1)) p = Resolved (Some h) \<and>
                     settledAt (receive P p h rx (onData h chunk ?w1)) p = now (onData h chunk ?w1) + t \<and>
                     isOpen (heap (receive P p h rx (onData h chunk ?w1)) h)
         | None \<Rightarrow> promises (receive P p h rx (onData h chunk ?w1)) p = Rejected (Str (timeoutMsg P (Some pn))) \<and>
                   settledAt (receive P p h rx (onData h chunk ?w1)) p = due \<and>
                   \<not> isOpen (heap (receive P p h rx (onData h chunk ?w1)) h)) \<and>
         timers (receive P p h rx (onData h chunk ?w1)) = [] \<and> nextPort (receive P p h rx (onData h chunk ?w1)) = nextPort (onData h chunk ?w1) \<and>
         path (heap (receive P p h rx (onData h chunk ?w1)) h) = Some pn \<and>
         (\<forall>h'. h' \<noteq> h \<longrightarrow> heap (receive P p h rx (onData h chunk ?w1)) h' = heap (onData h chunk ?w1) h')"
        by (rule Cons.IH[OF l2(1)])
      have rec: "receive P p h (x # rx) w = receive P p h rx (onData h chunk ?w1)"
        using pend pend1 adv x by simp
      have tm: "due - now (onData h chunk ?w1) = due - now w - gap" using l2(3) by simp
      show ?thesis
        using ih False nle x l2(2,3,4) early unfolding rec tm
        by (auto split: option.splits)
    qed
  qed
qed

subsection \<open>A whole open\<close>

lemma await_foresee:
  assumes "attempting p pn a h0 w"
  shows "case foresee P pn a es rx of
           None \<Rightarrow> await P p es rx w = None
         | Some (e, k, t) \<Rightarrow> (\<exists>w'. await P p es rx w = Some w' \<and> ended p pn h0 w e k t w')"
  using assms
proof (induction es arbitrary: a w)
  case Nil
  then show ?case by (simp add: attempting_def)
next
  case (Cons x es)
  have pend: "promises w p = Pending" and sp: "serialPort w = Some (nextPort w - 1)"
    and h0: "h0 < nextPort w"
    and old: "\<forall>h. h0 \<le> h \<and> h < nextPort w \<longrightarrow> \<not> isOpen (heap w h) \<and> path (heap w h) = Some pn"
    using Cons.prems by (simp_all add: attempting_def)
  let ?h = "nextPort w - 1"
  let ?w1 = "openDone P ?h x w"
  show ?case
  proof (cases x)
    case None
    note o = opened_step[OF Cons.prems, of P]
    have p1: "promises (openDone P ?h None w) p = Pending" using o(1) by (simp add: listening_def)
    let ?w2 = "receive P p ?h rx (openDone P ?h None w)"
    have aw: "await P p (x # es) rx w = (if promises ?w2 p = Pending then None else Some ?w2)"
      using pend sp p1 None by (simp add: Let_def)
    note r = receive_scan[OF o(1), of rx]
    have tm: "now w + 500 - now (openDone P ?h None w) = 500" using o(3) by simp
    show ?thesis
    proof (cases "scan (probeRsp P) [] 500 rx")
      case None' : None
      have fr: "\<forall>h'. h' \<noteq> ?h \<longrightarrow> heap ?w2 h' = heap w h'" using r o(4) by simp
      have hp: "path (heap ?w2 h) = Some pn \<and> \<not> isOpen (heap ?w2 h)"
        if "h0 \<le> h" "h < nextPort w" for h
        using that r None' fr old unfolding tm by (cases "h = ?h") auto
      have "ended p pn h0 w (GaveUp (Str (timeoutMsg P (Some pn)))) 0 500 ?w2"
        unfolding ended_def using r None' o(2,3) hp fr h0 unfolding tm
        by auto
      moreover have "promises ?w2 p \<noteq> Pending" using r None' unfolding tm by simp
      ultimately show ?thesis using None None' aw by simp
    next
      case (Some t)
      have fr: "\<forall>h'. h' \<noteq> ?h \<longrightarrow> heap ?w2 h' = heap w h'" using r o(4) by simp
      have hp: "path (heap ?w2 h) = Some pn \<and> (isOpen (heap ?w2 h) \<longleftrightarrow> h = ?h)"
        if "h0 \<le> h" "h < nextPort w" for h
        using that r Some fr old unfolding tm by (cases "h = ?h") auto
      have "ended p pn h0 w Matched 0 t ?w2"
        unfolding ended_def using r Some o(2,3) hp fr h0 unfolding tm
        by auto
      moreover have "promises ?w2 p \<noteq> Pending" using r Some unfolding tm by simp
      ultimately show ?thesis using None Some aw by simp
    qed
  next
    case (Some m)
    show ?thesis
    proof (cases "js_includes m ''Cannot lock port''")
      case lockd: True
      show ?thesis
      proof (cases "Suc a < MAX_OPEN_ATTEMPTS")
        case True
        note s = retry_step[OF Cons.prems lockd True, of P]
        let ?w2 = "sleep P (openDone P ?h (Some m) w)"
        have aw: "await P p (x # es) rx w = await P p es rx ?w2"
          using pend sp s(1) Some by (simp add: Let_def)
        note ih = Cons.IH[OF s(2)]
        show ?thesis
        proof (cases "foresee P pn (Suc a) es rx")
          case None
          then show ?thesis using ih aw Some lockd True by simp
        next
          case found: (Some r)
          obtain e k t where r: "r = (e, k, t)" by (cases r)
          from ih found r obtain w' where w': "await P p es rx ?w2 = Some w'"
            and e: "ended p pn h0 ?w2 e k t w'" by auto
          have "ended p pn h0 w e (Suc k) (t + 1000) w'"
            using e s(3,4,5) unfolding ended_def by (auto split: ending.splits)
          then show ?thesis using aw w' found r Some lockd True by simp
        qed
      next
        case False
        note g = giveup_step[OF Cons.prems lockd False, of P]
        have aw: "await P p (x # es) rx w = Some (openDone P ?h (Some m) w)"
          using pend sp g(1) Some by (simp add: Let_def)
        have "ended p pn h0 w (GaveUp (Error m)) 0 0 (openDone P ?h (Some m) w)"
          unfolding ended_def using g by auto
        then show ?thesis using aw Some lockd False by simp
      qed
    next
      case False
      note g = refused_step[OF Cons.prems False, of P]
      have aw: "await P p (x # es) rx w = Some (openDone P ?h (Some m) w)"
        using pend sp g(1) Some by (simp add: Let_def)
      have "ended p pn h0 w (GaveUp (Error m)) 0 0 (openDone P ?h (Some m) w)"
        unfolding ended_def using g by auto
      then show ?thesis using aw Some False by simp
    qed
  qed
qed

lemma sublist_more: "sublist m d \<Longrightarrow> sublist m (d @ x)"
  by (auto simp: sublist_def) (metis append.assoc)




lemma foresee_total:
  "a < MAX_OPEN_ATTEMPTS \<Longrightarrow> MAX_OPEN_ATTEMPTS \<le> a + length es \<Longrightarrow> foresee P pn a es rx \<noteq> None"
proof (induction es arbitrary: a)
  case Nil
  then show ?case by simp
next
  case (Cons x es)
  show ?case
  proof (cases x)
    case None
    then show ?thesis by simp
  next
    case (Some m)
    show ?thesis
    proof (cases "js_includes m ''Cannot lock port'' \<and> Suc a < MAX_OPEN_ATTEMPTS")
      case True
      then have "foresee P pn (Suc a) es rx \<noteq> None" using Cons.prems by (intro Cons.IH) auto
      then show ?thesis using True Some by simp
    next
      case False
      then show ?thesis using Some by auto
    qed
  qed
qed

lemma awaitOpen_foresee:
  assumes "timers w = []"
  shows "case foresee P pn 0 es rx of
           None \<Rightarrow> awaitOpen P pn es rx w = None
         | Some (e, k, t) \<Rightarrow>
             (\<exists>w'. awaitOpen P pn es rx w =
                     Some (case e of Matched \<Rightarrow> Resolved (Some (nextPort w + k)) | GaveUp x \<Rightarrow> Rejected x,
                           now w + t, w') \<and>
                   nextPort w' = Suc (nextPort w + k) \<and> timers w' = [] \<and>
                   (\<forall>h. nextPort w \<le> h \<and> h < nextPort w' \<longrightarrow>
                      path (heap w' h) = Some pn \<and>
                      (isOpen (heap w' h) \<longleftrightarrow> e = Matched \<and> h = nextPort w + k)) \<and>
                   (\<forall>h<nextPort w. heap w' h = heap w h))"
proof -
  obtain p w1 where o: "open P pn w = (p, w1)" by (cases "open P pn w")
  note a = open_attempting[OF assms o]
  have att: "attempting p pn 0 (nextPort w) w1" using a by blast
  note m = await_foresee[OF att, of P es rx]
  show ?thesis
  proof (cases "foresee P pn 0 es rx")
    case None
    then show ?thesis using m o by (simp add: awaitOpen_def)
  next
    case (Some r)
    obtain e k t where r: "r = (e, k, t)" by (cases r)
    from m Some r obtain w' where w': "await P p es rx w1 = Some w'"
      and e: "ended p pn (nextPort w) w1 e k t w'" by auto
    show ?thesis
      using w' e a o Some r unfolding ended_def
      by (auto simp: awaitOpen_def split: ending.splits)
  qed
qed

subsection \<open>What every step leaves alone\<close>

lemma grows_refl: "grows w w"
  by (simp add: grows_def)

lemma grows_trans: "grows w v \<Longrightarrow> grows v u \<Longrightarrow> grows w u"
  by (auto simp: grows_def)

lemma grows_close: "grows w (close w)"
  by (auto simp: grows_def close_def split: option.splits)

lemma grows_resolveOpen: "grows w (resolveOpen p v w)"
  by (simp add: grows_def resolveOpen_def)

lemma grows_rejectOpen: "grows w (rejectOpen p e w)"
  using grows_close[of w] by (auto simp: grows_def rejectOpen_def)

lemma grows_resolveProbe: "grows w (resolveProbe k w)"
  by (simp add: grows_def resolveProbe_def resolveOpen_def)

lemma grows_rejectProbe: "grows w (rejectProbe k e w)"
proof -
  let ?v = "w\<lparr>probes := (probes w)(k := (probes w k)\<lparr>outcome := Failed e\<rparr>)\<rparr>"
  have "grows w ?v" by (simp add: grows_def)
  then have "grows w (rejectOpen (owner (probes w k)) e ?v)"
    using grows_rejectOpen grows_trans by blast
  then show ?thesis by (simp add: rejectProbe_def grows_refl)
qed

lemma grows_probeTimeout: "grows w (probeTimeout P k w)"
  by (simp add: probeTimeout_def grows_rejectProbe)

lemma grows_clearTimeout: "grows w (clearTimeout t w)"
  by (simp add: grows_def clearTimeout_def)

lemma grows_dataListener: "grows w (dataListener k chunk w)"
proof -
  let ?v = "w\<lparr>probes := (probes w)(k := (probes w k)\<lparr>data := data (probes w k) @ chunk\<rparr>)\<rparr>"
  have a: "grows w ?v" by (simp add: grows_def)
  have b: "grows ?v (clearTimeout t ?v)" for t by (rule grows_clearTimeout)
  have c: "grows (clearTimeout t ?v) (resolveProbe k (clearTimeout t ?v))" for t
    by (rule grows_resolveProbe)
  have "grows w (resolveProbe k (clearTimeout t ?v))" for t
    using a b c grows_trans by blast
  then show ?thesis using a by (simp add: dataListener_def Let_def)
qed

lemma grows_probe: "grows w (probe P p w)"
proof (cases "serialPort w")
  case None
  let ?v = "(snd (setTimeout (ProbeTimeout (nextProbe w)) 500 w))
      \<lparr>probes := (probes w)(nextProbe w := \<lparr>timer = nextTimer w, match = probeRsp P, data = [],
           outcome = Unsettled, owner = p\<rparr>), nextProbe := nextProbe w + 1\<rparr>"
  have "grows w ?v" by (simp add: grows_def setTimeout_def)
  then have "grows w (rejectProbe (nextProbe w) TypeError ?v)"
    using grows_rejectProbe grows_trans by blast
  then show ?thesis using None by (simp add: probe_def setTimeout_def Let_def)
next
  case (Some h)
  then show ?thesis by (simp add: probe_def setTimeout_def Let_def grows_def)
qed

lemma grows_tryToOpen: "grows w (tryToOpen P p w)"
  by (simp add: grows_def tryToOpen_def)

lemma grows_openCallback: "grows w (openCallback P p e w)"
proof (cases e)
  case None
  then show ?thesis by (simp add: openCallback_def grows_probe)
next
  case (Some m)
  have a: "grows w (w\<lparr>lockAttempt := lockAttempt w + 1\<rparr>)" by (simp add: grows_def)
  have b: "grows w (rejectOpen p (Error m) (w\<lparr>lockAttempt := lockAttempt w + 1\<rparr>))"
    using a grows_rejectOpen grows_trans by blast
  show ?thesis
    using Some b grows_rejectOpen[of w p "Error m"]
    by (auto simp: openCallback_def Let_def setTimeout_def) (simp add: grows_def)
qed

lemma grows_openDone: "grows w (openDone P h e w)"
proof (cases "pendingOpen (heap w h)")
  case None
  then show ?thesis by (simp add: openDone_def grows_refl)
next
  case (Some p)
  let ?v = "w\<lparr>heap := (heap w)(h := (heap w h)\<lparr>pendingOpen := None, isOpen := (e = None)\<rparr>)\<rparr>"
  have "grows w ?v" by (simp add: grows_def)
  then have "grows w (openCallback P p e ?v)" using grows_openCallback grows_trans by blast
  then show ?thesis using Some by (simp add: openDone_def)
qed

lemma grows_fold: "(\<And>x v. grows v (f x v)) \<Longrightarrow> grows w (fold f xs w)"
proof (induction xs arbitrary: w)
  case Nil
  then show ?case by (simp add: grows_refl)
next
  case (Cons x xs)
  have "grows w (f x w)" by (rule Cons.prems)
  moreover have "grows (f x w) (fold f xs (f x w))" using Cons.prems by (rule Cons.IH)
  ultimately show ?case using grows_trans by fastforce
qed

lemma grows_onData: "grows w (onData h chunk w)"
  by (simp add: onData_def grows_refl grows_fold grows_dataListener)

lemma grows_fire: "grows w (fire P tm w)"
proof -
  obtain t due cb where tm: "tm = (t, due, cb)" by (cases tm)
  let ?v = "(clearTimeout t w)\<lparr>now := max (now w) due\<rparr>"
  have a: "grows w ?v" by (simp add: grows_def clearTimeout_def)
  show ?thesis
  proof (cases cb)
    case (RetryOpen p)
    have "grows w (tryToOpen P p ?v)" using a grows_tryToOpen grows_trans by blast
    then show ?thesis using tm RetryOpen by (simp add: fire_def)
  next
    case (ProbeTimeout k)
    have "grows w (probeTimeout P k ?v)" using a grows_probeTimeout grows_trans by blast
    then show ?thesis using tm ProbeTimeout by (simp add: fire_def)
  qed
qed

lemma grows_sleep: "grows w (sleep P w)"
  by (simp add: sleep_def grows_refl grows_fire split: option.splits)

lemma grows_fireDue: "grows w (fireDue P n until w)"
proof (induction n arbitrary: w)
  case 0
  then show ?case by (simp add: grows_refl)
next
  case (Suc n)
  show ?case
  proof (cases "earliest (timers w)")
    case None
    then show ?thesis by (simp add: grows_refl)
  next
    case (Some tm)
    have "grows w (fireDue P n until (fire P tm w))"
      using grows_fire Suc.IH grows_trans by blast
    then show ?thesis using Some by (simp add: grows_refl)
  qed
qed

lemma grows_advance: "grows w (advance P ms w)"
proof -
  have "grows (fireDue P (length (timers w)) (now w + ms) w)
     ((fireDue P (length (timers w)) (now w + ms) w)\<lparr>now := now w + ms\<rparr>)"
    by (simp add: grows_def)
  then show ?thesis unfolding advance_def using grows_fireDue grows_trans by blast
qed

lemma grows_sleepUntil: "grows w (sleepUntil P p n w)"
proof (induction n arbitrary: w)
  case 0
  then show ?case by (simp add: grows_refl)
next
  case (Suc n)
  have "grows w (sleepUntil P p n (sleep P w))"
    using grows_sleep Suc.IH grows_trans by blast
  then show ?case by (simp add: grows_refl)
qed

lemma grows_receive: "grows w (receive P p h rx w)"
proof (induction rx arbitrary: w)
  case Nil
  then show ?case by (simp add: grows_sleepUntil)
next
  case (Cons x rx)
  obtain gap chunk where x: "x = (gap, chunk)" by (cases x)
  have a: "grows w (advance P gap w)" by (rule grows_advance)
  have "grows (advance P gap w) (onData h chunk (advance P gap w))" by (rule grows_onData)
  then have "grows w (onData h chunk (advance P gap w))" using a grows_trans by blast
  then have "grows w (receive P p h rx (onData h chunk (advance P gap w)))"
    using Cons.IH grows_trans by blast
  then show ?case using a by (simp add: x Let_def grows_refl)
qed

lemma grows_await: "await P p es rx w = Some w' \<Longrightarrow> grows w w'"
proof (induction es arbitrary: w)
  case Nil
  then show ?case by (auto simp: grows_refl split: if_splits)
next
  case (Cons e es)
  show ?case
  proof (cases "promises w p \<noteq> Pending")
    case True
    then show ?thesis using Cons.prems by (simp add: grows_refl)
  next
    case False
    then obtain h where h: "serialPort w = Some h"
      using Cons.prems by (cases "serialPort w") auto
    let ?w1 = "openDone P h e w"
    have a: "grows w ?w1" by (rule grows_openDone)
    show ?thesis
    proof (cases "promises ?w1 p \<noteq> Pending")
      case True
      then show ?thesis using Cons.prems False h a by (simp add: Let_def)
    next
      case p1: False
      show ?thesis
      proof (cases "e = None")
        case True
        have "grows w (receive P p h rx ?w1)" using a grows_receive grows_trans by blast
        then show ?thesis using Cons.prems False h p1 True by (auto simp: Let_def split: if_splits)
      next
        case ne: False
        have r: "await P p es rx (sleep P ?w1) = Some w'"
          using Cons.prems False h p1 ne by (simp add: Let_def)
        have "grows w (sleep P ?w1)" using a grows_sleep grows_trans by blast
        then show ?thesis using Cons.IH[OF r] grows_trans by blast
      qed
    qed
  qed
qed

lemma awaitOpen_made:
  assumes "awaitOpen P pn opens rx w = Some (r, t, w')"
  shows "opened w' = opened w @ [pn]" and "nextPort w < nextPort w'"
    and "path (heap w' (nextPort w)) = Some pn"
    and "\<forall>h<nextPort w. path (heap w' h) = path (heap w h)"
proof -
  obtain p w1 where o: "open P pn w = (p, w1)" by (cases "open P pn w")
  have w1: "nextPort w1 = Suc (nextPort w)" "opened w1 = opened w @ [pn]"
    "path (heap w1 (nextPort w)) = Some pn" "\<forall>h<nextPort w. path (heap w1 h) = path (heap w h)"
    using o by (auto simp: open_def tryToOpen_def Let_def)
  have "await P p opens rx w1 = Some w'"
    using assms o by (auto simp: awaitOpen_def split: option.splits)
  then have g: "grows w1 w'" by (rule grows_await)
  show "opened w' = opened w @ [pn]" using g w1 by (simp add: grows_def)
  show "nextPort w < nextPort w'" using g w1 by (simp add: grows_def)
  show "path (heap w' (nextPort w)) = Some pn" using g w1 by (simp add: grows_def)
  show "\<forall>h<nextPort w. path (heap w' h) = path (heap w h)" using g w1 by (simp add: grows_def)
qed

lemma confined_refl: "confined w w"
  by (simp add: confined_def grows_def)

lemma confined_trans:
  assumes "confined w v" and "confined v u"
  shows "confined w u"
proof -
  have g: "grows w u" using assms grows_trans unfolding confined_def by blast
  have p: "portName u = portName w \<or> portName u = None"
    using assms unfolding confined_def by auto
  have "h < nextPort w \<or> path (heap u h) = portName w \<or> path (heap u h) = None"
    if "h < nextPort u" for h
  proof (cases "h < nextPort v")
    case True
    then have "path (heap u h) = path (heap v h)" using assms(2) by (simp add: confined_def grows_def)
    moreover have "h < nextPort w \<or> path (heap v h) = portName w \<or> path (heap v h) = None"
      using assms(1) True by (simp add: confined_def)
    ultimately show ?thesis by simp
  next
    case False
    then have "path (heap u h) = portName v \<or> path (heap u h) = None"
      using assms(2) that by (auto simp: confined_def)
    moreover have "portName v = portName w \<or> portName v = None"
      using assms(1) by (simp add: confined_def)
    ultimately show ?thesis by auto
  qed
  then show ?thesis using g p by (simp add: confined_def)
qed

lemma confined_close: "confined w (close w)"
  by (auto simp: confined_def grows_def close_def split: option.splits)

lemma confined_resolveOpen: "confined w (resolveOpen p v w)"
  by (simp add: confined_def grows_def resolveOpen_def)

lemma confined_rejectOpen: "confined w (rejectOpen p e w)"
  using confined_close[of w] by (auto simp: confined_def grows_def rejectOpen_def)

lemma confined_resolveProbe: "confined w (resolveProbe k w)"
  by (simp add: confined_def grows_def resolveProbe_def resolveOpen_def)

lemma confined_rejectProbe: "confined w (rejectProbe k e w)"
proof -
  let ?v = "w\<lparr>probes := (probes w)(k := (probes w k)\<lparr>outcome := Failed e\<rparr>)\<rparr>"
  have "confined w ?v" by (simp add: confined_def grows_def)
  then have "confined w (rejectOpen (owner (probes w k)) e ?v)"
    using confined_rejectOpen confined_trans by blast
  then show ?thesis by (simp add: rejectProbe_def confined_refl)
qed

lemma confined_probeTimeout: "confined w (probeTimeout P k w)"
  by (simp add: probeTimeout_def confined_rejectProbe)

lemma confined_clearTimeout: "confined w (clearTimeout t w)"
  by (simp add: confined_def grows_def clearTimeout_def)

lemma confined_dataListener: "confined w (dataListener k chunk w)"
proof -
  let ?v = "w\<lparr>probes := (probes w)(k := (probes w k)\<lparr>data := data (probes w k) @ chunk\<rparr>)\<rparr>"
  have a: "confined w ?v" by (simp add: confined_def grows_def)
  have b: "confined ?v (clearTimeout t ?v)" for t by (rule confined_clearTimeout)
  have c: "confined (clearTimeout t ?v) (resolveProbe k (clearTimeout t ?v))" for t
    by (rule confined_resolveProbe)
  have "confined w (resolveProbe k (clearTimeout t ?v))" for t
    using a b c confined_trans by blast
  then show ?thesis using a by (simp add: dataListener_def Let_def)
qed

lemma confined_probe: "confined w (probe P p w)"
proof (cases "serialPort w")
  case None
  let ?v = "(snd (setTimeout (ProbeTimeout (nextProbe w)) 500 w))
      \<lparr>probes := (probes w)(nextProbe w := \<lparr>timer = nextTimer w, match = probeRsp P, data = [],
           outcome = Unsettled, owner = p\<rparr>), nextProbe := nextProbe w + 1\<rparr>"
  have "confined w ?v" by (simp add: confined_def grows_def setTimeout_def)
  then have "confined w (rejectProbe (nextProbe w) TypeError ?v)"
    using confined_rejectProbe confined_trans by blast
  then show ?thesis using None by (simp add: probe_def setTimeout_def Let_def)
next
  case (Some h)
  then show ?thesis by (simp add: probe_def setTimeout_def Let_def confined_def grows_def)
qed

lemma confined_tryToOpen: "confined w (tryToOpen P p w)"
  by (simp add: confined_def grows_def tryToOpen_def)

lemma confined_openCallback: "confined w (openCallback P p e w)"
proof (cases e)
  case None
  then show ?thesis by (simp add: openCallback_def confined_probe)
next
  case (Some m)
  have a: "confined w (w\<lparr>lockAttempt := lockAttempt w + 1\<rparr>)" by (simp add: confined_def grows_def)
  have b: "confined w (rejectOpen p (Error m) (w\<lparr>lockAttempt := lockAttempt w + 1\<rparr>))"
    using a confined_rejectOpen confined_trans by blast
  show ?thesis
    using Some b confined_rejectOpen[of w p "Error m"]
    by (auto simp: openCallback_def Let_def setTimeout_def) (simp add: confined_def grows_def)
qed

lemma confined_openDone: "confined w (openDone P h e w)"
proof (cases "pendingOpen (heap w h)")
  case None
  then show ?thesis by (simp add: openDone_def confined_refl)
next
  case (Some p)
  let ?v = "w\<lparr>heap := (heap w)(h := (heap w h)\<lparr>pendingOpen := None, isOpen := (e = None)\<rparr>)\<rparr>"
  have "confined w ?v" by (simp add: confined_def grows_def)
  then have "confined w (openCallback P p e ?v)" using confined_openCallback confined_trans by blast
  then show ?thesis using Some by (simp add: openDone_def)
qed

lemma confined_fold: "(\<And>x v. confined v (f x v)) \<Longrightarrow> confined w (fold f xs w)"
proof (induction xs arbitrary: w)
  case Nil
  then show ?case by (simp add: confined_refl)
next
  case (Cons x xs)
  have "confined w (f x w)" by (rule Cons.prems)
  moreover have "confined (f x w) (fold f xs (f x w))" using Cons.prems by (rule Cons.IH)
  ultimately show ?case using confined_trans by fastforce
qed

lemma confined_onData: "confined w (onData h chunk w)"
  by (simp add: onData_def confined_refl confined_fold confined_dataListener)

lemma confined_fire: "confined w (fire P tm w)"
proof -
  obtain t due cb where tm: "tm = (t, due, cb)" by (cases tm)
  let ?v = "(clearTimeout t w)\<lparr>now := max (now w) due\<rparr>"
  have a: "confined w ?v" by (simp add: confined_def grows_def clearTimeout_def)
  show ?thesis
  proof (cases cb)
    case (RetryOpen p)
    have "confined w (tryToOpen P p ?v)" using a confined_tryToOpen confined_trans by blast
    then show ?thesis using tm RetryOpen by (simp add: fire_def)
  next
    case (ProbeTimeout k)
    have "confined w (probeTimeout P k ?v)" using a confined_probeTimeout confined_trans by blast
    then show ?thesis using tm ProbeTimeout by (simp add: fire_def)
  qed
qed

lemma confined_sleep: "confined w (sleep P w)"
  by (simp add: sleep_def confined_refl confined_fire split: option.splits)

lemma confined_fireDue: "confined w (fireDue P n until w)"
proof (induction n arbitrary: w)
  case 0
  then show ?case by (simp add: confined_refl)
next
  case (Suc n)
  show ?case
  proof (cases "earliest (timers w)")
    case None
    then show ?thesis by (simp add: confined_refl)
  next
    case (Some tm)
    have "confined w (fireDue P n until (fire P tm w))"
      using confined_fire Suc.IH confined_trans by blast
    then show ?thesis using Some by (simp add: confined_refl)
  qed
qed

lemma confined_advance: "confined w (advance P ms w)"
proof -
  have "confined (fireDue P (length (timers w)) (now w + ms) w)
     ((fireDue P (length (timers w)) (now w + ms) w)\<lparr>now := now w + ms\<rparr>)"
    by (simp add: confined_def grows_def)
  then show ?thesis unfolding advance_def using confined_fireDue confined_trans by blast
qed

lemma confined_sleepUntil: "confined w (sleepUntil P p n w)"
proof (induction n arbitrary: w)
  case 0
  then show ?case by (simp add: confined_refl)
next
  case (Suc n)
  have "confined w (sleepUntil P p n (sleep P w))"
    using confined_sleep Suc.IH confined_trans by blast
  then show ?case by (simp add: confined_refl)
qed

lemma confined_receive: "confined w (receive P p h rx w)"
proof (induction rx arbitrary: w)
  case Nil
  then show ?case by (simp add: confined_sleepUntil)
next
  case (Cons x rx)
  obtain gap chunk where x: "x = (gap, chunk)" by (cases x)
  have a: "confined w (advance P gap w)" by (rule confined_advance)
  have "confined (advance P gap w) (onData h chunk (advance P gap w))" by (rule confined_onData)
  then have "confined w (onData h chunk (advance P gap w))" using a confined_trans by blast
  then have "confined w (receive P p h rx (onData h chunk (advance P gap w)))"
    using Cons.IH confined_trans by blast
  then show ?case using a by (simp add: x Let_def confined_refl)
qed

lemma confined_await: "await P p es rx w = Some w' \<Longrightarrow> confined w w'"
proof (induction es arbitrary: w)
  case Nil
  then show ?case by (auto simp: confined_refl split: if_splits)
next
  case (Cons e es)
  show ?case
  proof (cases "promises w p \<noteq> Pending")
    case True
    then show ?thesis using Cons.prems by (simp add: confined_refl)
  next
    case False
    then obtain h where h: "serialPort w = Some h"
      using Cons.prems by (cases "serialPort w") auto
    let ?w1 = "openDone P h e w"
    have a: "confined w ?w1" by (rule confined_openDone)
    show ?thesis
    proof (cases "promises ?w1 p \<noteq> Pending")
      case True
      then show ?thesis using Cons.prems False h a by (simp add: Let_def)
    next
      case p1: False
      show ?thesis
      proof (cases "e = None")
        case True
        have "confined w (receive P p h rx ?w1)" using a confined_receive confined_trans by blast
        then show ?thesis using Cons.prems False h p1 True by (auto simp: Let_def split: if_splits)
      next
        case ne: False
        have r: "await P p es rx (sleep P ?w1) = Some w'"
          using Cons.prems False h p1 ne by (simp add: Let_def)
        have "confined w (sleep P ?w1)" using a confined_sleep confined_trans by blast
        then show ?thesis using Cons.IH[OF r] confined_trans by blast
      qed
    qed
  qed
qed


lemma awaitOpen_confined:
  assumes "awaitOpen P pn opens rx w = Some (r, t, w')"
  shows "\<forall>h. nextPort w \<le> h \<and> h < nextPort w' \<longrightarrow>
           path (heap w' h) = Some pn \<or> path (heap w' h) = None"
proof -
  obtain p w1 where o: "open P pn w = (p, w1)" by (cases "open P pn w")
  have w1: "nextPort w1 = Suc (nextPort w)" "portName w1 = Some pn"
    "path (heap w1 (nextPort w)) = Some pn"
    using o by (auto simp: open_def tryToOpen_def Let_def)
  have "await P p opens rx w1 = Some w'"
    using assms o by (auto simp: awaitOpen_def split: option.splits)
  then have g: "confined w1 w'" by (rule confined_await)
  show ?thesis
  proof (intro allI impI)
    fix h assume h: "nextPort w \<le> h \<and> h < nextPort w'"
    show "path (heap w' h) = Some pn \<or> path (heap w' h) = None"
    proof (cases "h = nextPort w")
      case True
      then show ?thesis using g w1 by (simp add: confined_def grows_def)
    next
      case False
      then have "\<not> h < nextPort w1" using h w1 by simp
      then show ?thesis using g w1 h by (auto simp: confined_def)
    qed
  qed
qed

subsection \<open>The events of one probe\<close>

lemma detects_iff:
  "detects m d evs \<longleftrightarrow>
     beforeDeadline evs \<noteq> [] \<and> sublist m (d @ received (beforeDeadline evs))"
proof (induction m d evs rule: detects.induct)
  case (1 m d)
  then show ?case by (simp add: beforeDeadline_def)
next
  case (2 m d c evs)
  have bd: "beforeDeadline (Chunk c # evs) = Chunk c # beforeDeadline evs"
    by (simp add: beforeDeadline_def)
  show ?case
  proof (cases "js_includes (d @ c) m")
    case True
    then have "sublist m (d @ c)" by (simp add: js_includes_sublist)
    then have "sublist m ((d @ c) @ received (beforeDeadline evs))"
      by (rule sublist_more)
    then show ?thesis using True by (simp add: bd)
  next
    case False
    then have "beforeDeadline evs = [] \<Longrightarrow> \<not> sublist m ((d @ c) @ received (beforeDeadline evs))"
      by (simp add: js_includes_sublist)
    then show ?thesis using False "2.IH" by (auto simp: bd)
  qed
next
  case (3 m d evs)
  then show ?case by (simp add: beforeDeadline_def)
qed

lemma settled_dataListener:
  assumes "outcome (probes w k) \<noteq> Unsettled"
  shows "outcome (probes (dataListener k c w) k) = outcome (probes w k)"
    and "data (probes (dataListener k c w) k) = data (probes w k) @ c"
    and "promises (dataListener k c w) = promises w"
    and "set (timers (dataListener k c w)) \<subseteq> set (timers w)"
  using assms
  by (auto simp: dataListener_def resolveProbe_def clearTimeout_def Let_def)

lemma settled_probeTimeout:
  assumes "outcome (probes w k) \<noteq> Unsettled"
  shows "probeTimeout P k w = w"
  using assms by (simp add: probeTimeout_def rejectProbe_def)

lemma settled_probeEvents:
  assumes "outcome (probes w k) \<noteq> Unsettled"
  shows "outcome (probes (probeEvents P k evs w) k) = outcome (probes w k) \<and>
         data (probes (probeEvents P k evs w) k) = data (probes w k) @ received evs \<and>
         promises (probeEvents P k evs w) = promises w \<and>
         set (timers (probeEvents P k evs w)) \<subseteq> set (timers w)"
  using assms
proof (induction evs arbitrary: w)
  case Nil
  then show ?case by simp
next
  case (Cons ev evs)
  show ?case
  proof (cases ev)
    case (Chunk c)
    note s = settled_dataListener[OF Cons.prems, of c]
    have "outcome (probes (dataListener k c w) k) \<noteq> Unsettled" using s(1) Cons.prems by simp
    from Cons.IH[OF this] show ?thesis using s Chunk by auto
  next
    case Deadline
    have "probeTimeout P k w = w" by (rule settled_probeTimeout[OF Cons.prems])
    then show ?thesis using Cons.IH[OF Cons.prems] Deadline by simp
  qed
qed

lemma hit_dataListener:
  assumes "outcome (probes w k) = Unsettled" and "js_includes (data (probes w k) @ c) (match (probes w k))"
  shows "outcome (probes (dataListener k c w) k) = Fulfilled"
    and "data (probes (dataListener k c w) k) = data (probes w k) @ c"
    and "promises w (owner (probes w k)) = Pending \<Longrightarrow>
           promises (dataListener k c w) (owner (probes w k)) = Resolved (serialPort w)"
    and "\<forall>tm \<in> set (timers (dataListener k c w)). fst tm \<noteq> timer (probes w k)"
  using assms
  by (auto simp: dataListener_def resolveProbe_def resolveOpen_def clearTimeout_def Let_def)

lemma miss_dataListener:
  assumes "outcome (probes w k) = Unsettled" and "\<not> js_includes (data (probes w k) @ c) (match (probes w k))"
  shows "dataListener k c w = w\<lparr>probes := (probes w)(k := (probes w k)\<lparr>data := data (probes w k) @ c\<rparr>)\<rparr>"
  using assms by (simp add: dataListener_def Let_def)

lemma fail_probeTimeout:
  assumes "outcome (probes w k) = Unsettled"
  shows "outcome (probes (probeTimeout P k w) k) \<noteq> Unsettled"
    and "outcome (probes (probeTimeout P k w) k) \<noteq> Fulfilled"
    and "data (probes (probeTimeout P k w) k) = data (probes w k)"
  using assms
  by (auto simp: probeTimeout_def rejectProbe_def rejectOpen_def close_def split: option.splits)

lemma pending_probeEvents:
  assumes "outcome (probes w k) = Unsettled"
  shows "(outcome (probes (probeEvents P k evs w) k) = Fulfilled \<longleftrightarrow>
            detects (match (probes w k)) (data (probes w k)) evs) \<and>
         data (probes (probeEvents P k evs w) k) = data (probes w k) @ received evs \<and>
         (detects (match (probes w k)) (data (probes w k)) evs \<longrightarrow>
            (promises w (owner (probes w k)) = Pending \<longrightarrow>
               promises (probeEvents P k evs w) (owner (probes w k)) = Resolved (serialPort w)) \<and>
            (\<forall>tm \<in> set (timers (probeEvents P k evs w)). fst tm \<noteq> timer (probes w k)))"
  using assms
proof (induction evs arbitrary: w)
  case Nil
  then show ?case by simp
next
  case (Cons ev evs)
  show ?case
  proof (cases ev)
    case (Chunk c)
    show ?thesis
    proof (cases "js_includes (data (probes w k) @ c) (match (probes w k))")
      case True
      note h = hit_dataListener[OF Cons.prems True]
      have s: "outcome (probes (dataListener k c w) k) \<noteq> Unsettled" using h(1) by simp
      note r = settled_probeEvents[OF s, of P evs]
      have tm: "\<forall>tm \<in> set (timers (probeEvents P k evs (dataListener k c w))). fst tm \<noteq> timer (probes w k)"
        using r h(4) by blast
      show ?thesis using r h(1,2,3) tm True Chunk by auto
    next
      case False
      let ?v = "w\<lparr>probes := (probes w)(k := (probes w k)\<lparr>data := data (probes w k) @ c\<rparr>)\<rparr>"
      have v: "dataListener k c w = ?v" by (rule miss_dataListener[OF Cons.prems False])
      have u: "outcome (probes ?v k) = Unsettled" using Cons.prems by simp
      from Cons.IH[OF u] show ?thesis using False Chunk v by simp
    qed
  next
    case Deadline
    note f = fail_probeTimeout[OF Cons.prems, of P]
    note r = settled_probeEvents[OF f(1), of P evs]
    show ?thesis using r f Deadline by simp
  qed
qed

lemma probe_made:
  assumes "serialPort w = Some h"
  shows "outcome (probes (probe P p w) (nextProbe w)) = Unsettled"
    and "match (probes (probe P p w) (nextProbe w)) = probeRsp P"
    and "data (probes (probe P p w) (nextProbe w)) = []"
    and "owner (probes (probe P p w) (nextProbe w)) = p"
    and "serialPort (probe P p w) = Some h"
    and "promises (probe P p w) = promises w"
    and "listeners (heap (probe P p w) h) = listeners (heap w h) @ [nextProbe w]"
    and "written (heap (probe P p w) h) = written (heap w h) @ probeCmd P"
    and "timers (probe P p w) = timers w @ [(timer (probes (probe P p w) (nextProbe w)), now w + 500, ProbeTimeout (nextProbe w))]"
  using assms by (simp_all add: probe_def setTimeout_def Let_def)

lemma probe_unmade:
  assumes "serialPort w = None"
  shows "outcome (probes (probe P p w) (nextProbe w)) = Failed TypeError"
    and "data (probes (probe P p w) (nextProbe w)) = []"
  using assms
  by (simp_all add: probe_def setTimeout_def Let_def rejectProbe_def rejectOpen_def close_def)

lemma probe_alone:
  "(outcome (probes (probeEvents P (nextProbe w) evs (probe P p w)) (nextProbe w)) = Fulfilled \<longleftrightarrow>
      serialPort w \<noteq> None \<and> beforeDeadline evs \<noteq> [] \<and>
      sublist (probeRsp P) (received (beforeDeadline evs))) \<and>
   data (probes (probeEvents P (nextProbe w) evs (probe P p w)) (nextProbe w)) = received evs \<and>
   (\<forall>h. serialPort w = Some h \<longrightarrow>
      listeners (heap (probe P p w) h) = listeners (heap w h) @ [nextProbe w] \<and>
      written (heap (probe P p w) h) = written (heap w h) @ probeCmd P \<and>
      timers (probe P p w) = timers w @ [(nextTimer w, now w + 500, ProbeTimeout (nextProbe w))] \<and>
      (beforeDeadline evs \<noteq> [] \<and> sublist (probeRsp P) (received (beforeDeadline evs)) \<longrightarrow>
         (\<forall>tm \<in> set (timers (probeEvents P (nextProbe w) evs (probe P p w))). fst tm \<noteq> nextTimer w) \<and>
         (promises w p = Pending \<longrightarrow>
            promises (probeEvents P (nextProbe w) evs (probe P p w)) p = Resolved (Some h))))"
proof (cases "serialPort w")
  case None
  note u = probe_unmade[OF None, of P p]
  have s: "outcome (probes (probe P p w) (nextProbe w)) \<noteq> Unsettled" using u(1) by simp
  show ?thesis using settled_probeEvents[OF s, of P evs] u None by simp
next
  case (Some h)
  note m = probe_made[OF Some, of P p]
  have t: "timer (probes (probe P p w) (nextProbe w)) = nextTimer w"
    using Some by (simp add: probe_def setTimeout_def Let_def)
  note r = pending_probeEvents[OF m(1), of P evs]
  show ?thesis using r m Some t by (simp add: detects_iff)
qed

subsection \<open>A probe among the other events\<close>

lemma probes_close: "probes (close w) = probes w"
  by (simp add: close_def split: option.splits)

lemma probes_resolveOpen: "probes (resolveOpen p v w) = probes w"
  by (simp add: resolveOpen_def)

lemma probes_rejectOpen: "probes (rejectOpen p e w) = probes w"
  by (simp add: rejectOpen_def probes_close)

lemma probes_clearTimeout: "probes (clearTimeout t w) = probes w"
  by (simp add: clearTimeout_def)

lemma probes_resolveProbe: "j \<noteq> k \<Longrightarrow> probes (resolveProbe j w) k = probes w k"
  by (simp add: resolveProbe_def probes_resolveOpen)

lemma probes_rejectProbe: "j \<noteq> k \<Longrightarrow> probes (rejectProbe j e w) k = probes w k"
  by (simp add: rejectProbe_def probes_rejectOpen)

lemma probes_probeTimeout: "j \<noteq> k \<Longrightarrow> probes (probeTimeout P j w) k = probes w k"
  by (simp add: probeTimeout_def probes_rejectProbe)

lemma probes_dataListener: "j \<noteq> k \<Longrightarrow> probes (dataListener j c w) k = probes w k"
  by (simp add: dataListener_def Let_def probes_resolveProbe probes_clearTimeout)

lemma probes_tryToOpen: "probes (tryToOpen P p w) = probes w"
  by (simp add: tryToOpen_def)

lemma probes_probe: "k < nextProbe w \<Longrightarrow> probes (probe P p w) k = probes w k"
  by (simp add: probe_def setTimeout_def Let_def probes_rejectProbe split: option.splits)

lemma probes_openCallback: "k < nextProbe w \<Longrightarrow> probes (openCallback P p e w) k = probes w k"
  by (simp add: openCallback_def setTimeout_def Let_def probes_rejectOpen probes_probe
      split: option.splits)

lemma probes_openDone: "k < nextProbe w \<Longrightarrow> probes (openDone P h e w) k = probes w k"
  by (simp add: openDone_def probes_openCallback split: option.splits)

lemma probes_open: "probes (snd (open P pn w)) = probes w"
  by (simp add: open_def Let_def probes_tryToOpen)

lemma probes_fire_retry: "probes (fire P (t, due, RetryOpen q) w) = probes w"
  by (simp add: fire_def Let_def probes_tryToOpen probes_clearTimeout)

lemma probes_fire_other:
  "j \<noteq> k \<Longrightarrow> probes (fire P (t, due, ProbeTimeout j) w) k = probes w k"
  by (simp add: fire_def Let_def probes_probeTimeout probes_clearTimeout)

lemma record_dataListener:
  "probes (dataListener k c w) k =
     (if js_includes (data (probes w k) @ c) (match (probes w k)) \<and> outcome (probes w k) = Unsettled
      then (probes w k)\<lparr>data := data (probes w k) @ c, outcome := Fulfilled\<rparr>
      else (probes w k)\<lparr>data := data (probes w k) @ c\<rparr>)"
  by (simp add: dataListener_def Let_def resolveProbe_def probes_resolveOpen probes_clearTimeout)

lemma probes_fold_others:
  "k \<notin> set js \<Longrightarrow> probes (fold (\<lambda>j. dataListener j c) js w) k = probes w k"
  by (induction js arbitrary: w) (auto simp: probes_dataListener)

lemma probes_onData_other:
  "k \<notin> set (listeners (heap w h)) \<Longrightarrow> probes (onData h c w) k = probes w k"
  by (simp add: onData_def probes_fold_others)

lemma probes_fold_own:
  "k \<in> set js \<Longrightarrow> distinct js \<Longrightarrow>
     probes (fold (\<lambda>j. dataListener j c) js w) k = probes (dataListener k c w) k"
proof (induction js arbitrary: w)
  case Nil
  then show ?case by simp
next
  case (Cons j js)
  show ?case
  proof (cases "j = k")
    case True
    then have "k \<notin> set js" using Cons.prems by simp
    then show ?thesis using True by (simp add: probes_fold_others)
  next
    case False
    then have k: "k \<in> set js" "distinct js" using Cons.prems by auto
    have "probes (dataListener k c (dataListener j c w)) k = probes (dataListener k c w) k"
      using False by (simp add: record_dataListener probes_dataListener)
    then show ?thesis using Cons.IH[OF k] by simp
  qed
qed

lemma probes_onData_own:
  "isOpen (heap w h) \<Longrightarrow> k \<in> set (listeners (heap w h)) \<Longrightarrow> distinct (listeners (heap w h)) \<Longrightarrow>
     probes (onData h c w) k = probes (dataListener k c w) k"
  by (simp add: onData_def probes_fold_own)

lemma probes_fire_own:
  "probes (fire P (t, due, ProbeTimeout k) w) k = probes (probeTimeout P k (clearTimeout t w)) k"
  by (simp add: fire_def Let_def probeTimeout_def rejectProbe_def probes_rejectOpen)

lemma received_append: "received (xs @ ys) = received xs @ received ys"
  by (induction xs rule: received.induct) auto

lemma detects_append:
  "detects m d (xs @ ys) \<longleftrightarrow>
     detects m d xs \<or> (Deadline \<notin> set xs \<and> detects m (d @ received xs) ys)"
  by (induction m d xs rule: detects.induct) auto

lemma follows_refl: "follows r r []"
  by (simp add: follows_def)

lemma follows_same: "r' = r \<Longrightarrow> follows r r' []"
  by (simp add: follows_def)

lemma follows_trans:
  assumes "follows r r' xs" and "follows r' r'' ys"
  shows "follows r r'' (xs @ ys)"
  using assms
  by (cases "outcome r = Unsettled"; cases "outcome r' = Unsettled")
    (auto simp: follows_def received_append detects_append)

lemma follows_dataListener:
  "follows (probes w k) (probes (dataListener k c w) k) [Chunk c]"
  by (auto simp: follows_def record_dataListener)

lemma follows_probeTimeout:
  "follows (probes w k) (probes (probeTimeout P k w) k) [Deadline]"
  by (auto simp: follows_def probeTimeout_def rejectProbe_def probes_rejectOpen)

lemma follows_fold:
  "follows (probes w k) (probes (fold (\<lambda>j. dataListener j c) js w) k)
     (map (\<lambda>j. Chunk c) (filter (\<lambda>j. j = k) js))"
proof (induction js arbitrary: w)
  case Nil
  then show ?case by (simp add: follows_refl)
next
  case (Cons j js)
  show ?case
  proof (cases "j = k")
    case True
    have "follows (probes w k) (probes (fold (\<lambda>j. dataListener j c) js (dataListener k c w)) k)
        ([Chunk c] @ map (\<lambda>j. Chunk c) (filter (\<lambda>j. j = k) js))"
      by (rule follows_trans[OF follows_dataListener Cons.IH])
    then show ?thesis using True by simp
  next
    case False
    have "probes (dataListener j c w) k = probes w k" using False by (simp add: probes_dataListener)
    then show ?thesis using Cons.IH[of "dataListener j c w"] False by simp
  qed
qed

lemma nextProbe_close: "nextProbe (close w) = nextProbe w"
  by (simp add: close_def split: option.splits)

lemma nextProbe_rejectOpen: "nextProbe (rejectOpen p e w) = nextProbe w"
  by (simp add: rejectOpen_def nextProbe_close)

lemma nextProbe_resolveOpen: "nextProbe (resolveOpen p v w) = nextProbe w"
  by (simp add: resolveOpen_def)

lemma nextProbe_rejectProbe: "nextProbe (rejectProbe k e w) = nextProbe w"
  by (simp add: rejectProbe_def nextProbe_rejectOpen)

lemma nextProbe_resolveProbe: "nextProbe (resolveProbe k w) = nextProbe w"
  by (simp add: resolveProbe_def nextProbe_resolveOpen)

lemma nextProbe_dataListener: "nextProbe (dataListener k c w) = nextProbe w"
  by (simp add: dataListener_def Let_def nextProbe_resolveProbe clearTimeout_def)

lemma nextProbe_probe: "nextProbe w \<le> nextProbe (probe P p w)"
  by (simp add: probe_def setTimeout_def Let_def nextProbe_rejectProbe split: option.splits)

lemma nextProbe_openCallback: "nextProbe w \<le> nextProbe (openCallback P p e w)"
  by (simp add: openCallback_def setTimeout_def Let_def nextProbe_rejectOpen nextProbe_probe
      split: option.splits)

lemma nextProbe_openDone: "nextProbe w \<le> nextProbe (openDone P h e w)"
proof (cases "pendingOpen (heap w h)")
  case None
  then show ?thesis by (simp add: openDone_def)
next
  case (Some p)
  let ?v = "w\<lparr>heap := (heap w)(h := (heap w h)\<lparr>pendingOpen := None, isOpen := (e = None)\<rparr>)\<rparr>"
  have "nextProbe ?v \<le> nextProbe (openCallback P p e ?v)" by (rule nextProbe_openCallback)
  then show ?thesis using Some by (simp add: openDone_def)
qed

lemma nextProbe_fold: "nextProbe (fold (\<lambda>j. dataListener j c) js w) = nextProbe w"
  by (induction js arbitrary: w) (auto simp: nextProbe_dataListener)

lemma nextProbe_fire: "nextProbe (fire P tm w) = nextProbe w"
  by (cases tm)
    (auto simp: fire_def Let_def tryToOpen_def clearTimeout_def probeTimeout_def
      nextProbe_rejectProbe split: timerCallback.splits)

lemma nextProbe_step: "nextProbe w \<le> nextProbe (step P ev w)"
  using nextProbe_openDone[of w P]
  by (cases ev)
    (auto simp: open_def Let_def tryToOpen_def nextProbe_close onData_def nextProbe_fold
      nextProbe_fire split: option.splits)

lemma follows_step:
  assumes "k < nextProbe w"
  shows "follows (probes w k) (probes (step P ev w) k) (heard k ev w)"
proof (cases ev)
  case (Opens pn)
  then show ?thesis by (simp add: probes_open follows_refl)
next
  case Closes
  then show ?thesis by (simp add: probes_close follows_refl)
next
  case (Answers h e)
  then show ?thesis using assms by (simp add: probes_openDone follows_refl)
next
  case (Arrives h c)
  then show ?thesis using follows_fold[of w k c] by (simp add: onData_def follows_refl)
next
  case (Fires t)
  show ?thesis
  proof (cases "pendingTimer t w")
    case None
    then show ?thesis using Fires by (simp add: follows_refl)
  next
    case (Some tm)
    obtain i due cb where tm: "tm = (i, due, cb)" by (cases tm)
    show ?thesis
    proof (cases cb)
      case (RetryOpen q)
      then show ?thesis using Fires Some tm by (simp add: probes_fire_retry follows_refl)
    next
      case (ProbeTimeout j)
      show ?thesis
      proof (cases "j = k")
        case True
        have "follows (probes (clearTimeout i w) k)
            (probes (probeTimeout P k (clearTimeout i w)) k) [Deadline]"
          by (rule follows_probeTimeout)
        then show ?thesis using Fires Some tm ProbeTimeout True
          by (simp add: probes_fire_own probes_clearTimeout)
      next
        case False
        then show ?thesis using Fires Some tm ProbeTimeout
          by (simp add: probes_fire_other follows_refl)
      qed
    qed
  qed
qed

lemma follows_run:
  "k < nextProbe w \<Longrightarrow> follows (probes w k) (probes (run P evs w) k) (trace P k evs w)"
proof (induction evs arbitrary: w)
  case Nil
  then show ?case by (simp add: follows_refl)
next
  case (Cons ev evs)
  have "k < nextProbe (step P ev w)" using Cons.prems nextProbe_step[of w P ev] by simp
  from follows_trans[OF follows_step[OF Cons.prems] Cons.IH[OF this]]
  show ?case by simp
qed

lemma probe_fresh: "nextProbe w < nextProbe (probe P p w)"
  by (simp add: probe_def setTimeout_def Let_def nextProbe_rejectProbe split: option.splits)

lemma probe_run:
  "(outcome (probes (run P evs (probe P p w)) (nextProbe w)) = Fulfilled \<longleftrightarrow>
      serialPort w \<noteq> None \<and> beforeDeadline (trace P (nextProbe w) evs (probe P p w)) \<noteq> [] \<and>
      sublist (probeRsp P) (received (beforeDeadline (trace P (nextProbe w) evs (probe P p w))))) \<and>
   data (probes (run P evs (probe P p w)) (nextProbe w)) =
     received (trace P (nextProbe w) evs (probe P p w))"
proof -
  note f = follows_run[OF probe_fresh, where w1 = w and P1 = P and p1 = p and P = P and evs = evs, unfolded follows_def]
  show ?thesis
  proof (cases "serialPort w")
    case None
    note u = probe_unmade[OF None, of P p]
    show ?thesis using f u None by simp
  next
    case (Some h)
    note m = probe_made[OF Some, of P p]
    show ?thesis using f m(1,2,3) Some by (simp add: detects_iff)
  qed
qed

subsection \<open>The loop of probeAll\<close>

lemma probePorts_step:
  "probePorts P M ((pt, opens, rx) # rest) acc w =
     (case serialPortMatchesFilter P M pt of
        Inl e \<Rightarrow> Some (Inl e, w)
      | Inr (ok, q) \<Rightarrow>
          if ok
          then (case awaitOpen P (pathOf q) opens rx w of
                  None \<Rightarrow> None
                | Some (Resolved sp, t, w') \<Rightarrow>
                    probePorts P M rest (acc @ [\<lparr>port = q, handle = sp\<rparr>]) w'
                | Some (_, t, w') \<Rightarrow> probePorts P M rest acc w')
          else probePorts P M rest acc w)"
proof (cases "normalizePort pt")
  case (Inl e)
  then show ?thesis by (simp add: serialPortMatchesFilter_def)
next
  case (Inr pt1)
  have f: "serialPortMatchesFilter P M pt1 = serialPortMatchesFilter P M pt"
    by (rule filter_normalized[OF Inr])
  show ?thesis
  proof (cases "serialPortMatchesFilter P M pt")
    case (Inl e)
    then show ?thesis using Inr f by simp
  next
    case res: (Inr r)
    obtain ok q where r: "r = (ok, q)" by (cases r)
    have q: "normalizePort pt = Inr q" using res r by (simp add: filter_leaves)
    have c: "q ''comName'' = Some (JString (pathOf q))" by (rule pathOf_normalized[OF q])
    show ?thesis using Inr f res r c by simp
  qed
qed

lemma probePorts_excluded:
  "probePorts P M ports acc w = probePorts P M (filter (\<lambda>c. \<not> excluded P M c) ports) acc w"
proof (induction ports arbitrary: acc w)
  case Nil
  then show ?case by simp
next
  case (Cons c rest)
  obtain pt opens rx where c: "c = (pt, opens, rx)" by (cases c)
  show ?case
  proof (cases "excluded P M c")
    case True
    then obtain q where "serialPortMatchesFilter P M pt = Inr (False, q)"
      by (auto simp: excluded_def c split: sum.splits)
    then have "probePorts P M (c # rest) acc w = probePorts P M rest acc w"
      by (simp add: c probePorts_step del: probePorts.simps)
    then show ?thesis using True Cons.IH by simp
  next
    case False
    define F where "F = (\<lambda>go :: probeResult list \<Rightarrow> world \<Rightarrow> ((err + probeResult list) \<times> world) option.
        case serialPortMatchesFilter P M pt of
        Inl e \<Rightarrow> Some (Inl e, w)
      | Inr (ok, q) \<Rightarrow>
          if ok
          then (case awaitOpen P (pathOf q) opens rx w of
                  None \<Rightarrow> None
                | Some (Resolved sp, t, w') \<Rightarrow> go (acc @ [\<lparr>port = q, handle = sp\<rparr>]) w'
                | Some (_, t, w') \<Rightarrow> go acc w')
          else go acc w)"
    have ih: "probePorts P M rest = probePorts P M (filter (\<lambda>c. \<not> excluded P M c) rest)"
      by (intro ext) (rule Cons.IH)
    have l: "probePorts P M (c # rest) acc w = F (probePorts P M rest)"
      unfolding F_def c by (rule probePorts_step)
    have r: "probePorts P M (c # filter (\<lambda>c. \<not> excluded P M c) rest) acc w =
        F (probePorts P M (filter (\<lambda>c. \<not> excluded P M c) rest))"
      unfolding F_def c by (rule probePorts_step)
    have "F (probePorts P M rest) = F (probePorts P M (filter (\<lambda>c. \<not> excluded P M c) rest))"
      using ih by simp
    then show ?thesis using False l r by simp
  qed
qed

lemma probePorts_results:
  "probePorts P M ports acc w = Some (Inr out, w') \<Longrightarrow>
     \<exists>rs. out = acc @ rs \<and>
        (\<forall>r \<in> set rs. \<exists>c \<in> set ports. serialPortMatchesFilter P M (fst c) = Inr (True, port r))"
proof (induction ports arbitrary: acc w)
  case Nil
  then show ?case by simp
next
  case (Cons c rest)
  obtain pt opens rx where c: "c = (pt, opens, rx)" by (cases c)
  show ?case
  proof (cases "serialPortMatchesFilter P M pt")
    case (Inl e)
    then show ?thesis using Cons.prems by (simp add: c probePorts_step del: probePorts.simps)
  next
    case (Inr r)
    obtain ok q where r: "r = (ok, q)" by (cases r)
    show ?thesis
    proof (cases ok)
      case False
      then have "probePorts P M rest acc w = Some (Inr out, w')"
        using Cons.prems Inr r by (simp add: c probePorts_step del: probePorts.simps)
      from Cons.IH[OF this] show ?thesis by auto
    next
      case True
      then obtain res t w1 where a: "awaitOpen P (pathOf q) opens rx w = Some (res, t, w1)"
        using Cons.prems Inr r
        by (cases "awaitOpen P (pathOf q) opens rx w")
          (auto simp: c probePorts_step simp del: probePorts.simps)
      show ?thesis
      proof (cases "\<exists>sp. res = Resolved sp")
        case yes: True
        then obtain sp where sp: "res = Resolved sp" by blast
        have "probePorts P M rest (acc @ [\<lparr>port = q, handle = sp\<rparr>]) w1 = Some (Inr out, w')"
          using Cons.prems Inr r True a sp by (simp add: c probePorts_step del: probePorts.simps)
        from Cons.IH[OF this] obtain rs where rs: "out = (acc @ [\<lparr>port = q, handle = sp\<rparr>]) @ rs"
          "\<forall>r \<in> set rs. \<exists>c \<in> set rest. serialPortMatchesFilter P M (fst c) = Inr (True, port r)"
          by blast
        show ?thesis
          using rs Inr r True
          by (intro exI[of _ "\<lparr>port = q, handle = sp\<rparr> # rs"]) (auto simp: c)
      next
        case no: False
        then have "probePorts P M rest acc w1 = Some (Inr out, w')"
          using Cons.prems Inr r True a
          by (cases res) (simp_all add: c probePorts_step del: probePorts.simps)
        from Cons.IH[OF this] show ?thesis by auto
      qed
    qed
  qed
qed


lemma passes_iff:
  "passes P M c \<longleftrightarrow> (\<exists>q. serialPortMatchesFilter P M (fst c) = Inr (True, q))"
  by (auto simp: passes_def split: sum.splits)

lemma probePorts_opened:
  "probePorts P M ports acc w = Some (Inr out, w') \<Longrightarrow>
     opened w' = opened w @ map (\<lambda>c. pathOf (descriptor P M c)) (filter (passes P M) ports) \<and>
     nextPort w \<le> nextPort w' \<and> (\<forall>h<nextPort w. path (heap w' h) = path (heap w h)) \<and>
     (\<forall>c \<in> set ports. passes P M c \<longrightarrow>
        (\<exists>h. nextPort w \<le> h \<and> h < nextPort w' \<and>
             path (heap w' h) = Some (pathOf (descriptor P M c))))"
proof (induction ports arbitrary: acc w)
  case Nil
  then show ?case by simp
next
  case (Cons c rest)
  obtain pt opens rx where c: "c = (pt, opens, rx)" by (cases c)
  show ?case
  proof (cases "serialPortMatchesFilter P M pt")
    case (Inl e)
    then show ?thesis using Cons.prems by (simp add: c probePorts_step del: probePorts.simps)
  next
    case (Inr r)
    obtain ok q where r: "r = (ok, q)" by (cases r)
    show ?thesis
    proof (cases ok)
      case False
      then have run: "probePorts P M rest acc w = Some (Inr out, w')"
        using Cons.prems Inr r by (simp add: c probePorts_step del: probePorts.simps)
      have np: "\<not> passes P M c" using False Inr r by (simp add: passes_def c)
      from Cons.IH[OF run] show ?thesis using np by auto
    next
      case True
      have ps: "passes P M c" and ds: "descriptor P M c = q"
        using True Inr r by (simp_all add: passes_def descriptor_def c)
      obtain res t w1 where a: "awaitOpen P (pathOf q) opens rx w = Some (res, t, w1)"
        using Cons.prems Inr r True
        by (cases "awaitOpen P (pathOf q) opens rx w")
          (auto simp: c probePorts_step simp del: probePorts.simps)
      note m = awaitOpen_made[OF a]
      have "\<exists>acc'. probePorts P M rest acc' w1 = Some (Inr out, w')"
        using Cons.prems Inr r True a
        by (cases res) (auto simp: c probePorts_step simp del: probePorts.simps)
      then obtain acc' where run: "probePorts P M rest acc' w1 = Some (Inr out, w')" by blast
      note ih = Cons.IH[OF run]
      have le: "nextPort w1 \<le> nextPort w'" using ih by blast
      have fr: "\<forall>h<nextPort w1. path (heap w' h) = path (heap w1 h)" using ih by blast
      have 1: "opened w' = opened w @ map (\<lambda>c. pathOf (descriptor P M c)) (filter (passes P M) (c # rest))"
        using ih m(1) ps ds by simp
      have 2: "nextPort w \<le> nextPort w'" using le m(2) by simp
      have 3: "\<forall>h<nextPort w. path (heap w' h) = path (heap w h)" using fr m(2,4) by simp
      have here: "\<exists>h. nextPort w \<le> h \<and> h < nextPort w' \<and> path (heap w' h) = Some (pathOf (descriptor P M c))"
        using m(2,3) fr le ds by (intro exI[of _ "nextPort w"]) simp
      have others: "\<forall>c' \<in> set rest. passes P M c' \<longrightarrow>
        (\<exists>h. nextPort w \<le> h \<and> h < nextPort w' \<and>
             path (heap w' h) = Some (pathOf (descriptor P M c')))"
      proof (intro ballI impI)
        fix c' assume "c' \<in> set rest" "passes P M c'"
        then obtain h where "nextPort w1 \<le> h" "h < nextPort w'"
          "path (heap w' h) = Some (pathOf (descriptor P M c'))" using ih by blast
        then show "\<exists>h. nextPort w \<le> h \<and> h < nextPort w' \<and>
             path (heap w' h) = Some (pathOf (descriptor P M c'))"
          using m(2) by (intro exI[of _ h]) simp
      qed
      show ?thesis using 1 2 3 here others by simp
    qed
  qed
qed

lemma probePorts_objects:
  "probePorts P M ports acc w = Some (Inr out, w') \<Longrightarrow>
     \<forall>h. nextPort w \<le> h \<and> h < nextPort w' \<longrightarrow>
         path (heap w' h) = None \<or>
         (\<exists>c \<in> set ports. passes P M c \<and> path (heap w' h) = Some (pathOf (descriptor P M c)))"
proof (induction ports arbitrary: acc w)
  case Nil
  then show ?case by auto
next
  case (Cons c rest)
  obtain pt opens rx where c: "c = (pt, opens, rx)" by (cases c)
  show ?case
  proof (cases "serialPortMatchesFilter P M pt")
    case (Inl e)
    then show ?thesis using Cons.prems by (simp add: c probePorts_step del: probePorts.simps)
  next
    case (Inr r)
    obtain ok q where r: "r = (ok, q)" by (cases r)
    show ?thesis
    proof (cases ok)
      case False
      then have run: "probePorts P M rest acc w = Some (Inr out, w')"
        using Cons.prems Inr r by (simp add: c probePorts_step del: probePorts.simps)
      from Cons.IH[OF run] show ?thesis by auto
    next
      case True
      have ps: "passes P M c" and ds: "descriptor P M c = q"
        using True Inr r by (simp_all add: passes_def descriptor_def c)
      obtain res t w1 where a: "awaitOpen P (pathOf q) opens rx w = Some (res, t, w1)"
        using Cons.prems Inr r True
        by (cases "awaitOpen P (pathOf q) opens rx w")
          (auto simp: c probePorts_step simp del: probePorts.simps)
      note m = awaitOpen_made[OF a]
      note f = awaitOpen_confined[OF a]
      have "\<exists>acc'. probePorts P M rest acc' w1 = Some (Inr out, w')"
        using Cons.prems Inr r True a
        by (cases res) (auto simp: c probePorts_step simp del: probePorts.simps)
      then obtain acc' where run: "probePorts P M rest acc' w1 = Some (Inr out, w')" by blast
      note ih = Cons.IH[OF run]
      note o = probePorts_opened[OF run]
      have fr: "\<forall>h<nextPort w1. path (heap w' h) = path (heap w1 h)" using o by blast
      show ?thesis
      proof (intro allI impI)
        fix h assume h: "nextPort w \<le> h \<and> h < nextPort w'"
        show "path (heap w' h) = None \<or>
          (\<exists>c' \<in> set (c # rest). passes P M c' \<and>
               path (heap w' h) = Some (pathOf (descriptor P M c')))"
        proof (cases "h < nextPort w1")
          case True
          then have "path (heap w' h) = path (heap w1 h)" using fr by simp
          moreover have "path (heap w1 h) = Some (pathOf q) \<or> path (heap w1 h) = None"
            using f h True by simp
          ultimately show ?thesis using ps ds by auto
        next
          case False
          then have "path (heap w' h) = None \<or>
            (\<exists>c' \<in> set rest. passes P M c' \<and>
                 path (heap w' h) = Some (pathOf (descriptor P M c')))"
            using ih h by simp
          then show ?thesis by auto
        qed
      qed
    qed
  qed
qed

subsection \<open>An open from a state with no timer pending\<close>

lemma early_all: "sum_list (map fst rx) < d \<Longrightarrow> early d rx = rx"
  by (induction rx arbitrary: d) auto

lemma awaitOpen_opened:
  assumes "timers w = []"
  shows "\<exists>w'. awaitOpen P pn (None # es) rx w =
           Some (case scan (probeRsp P) [] 500 rx of
                   Some t \<Rightarrow> (Resolved (Some (nextPort w)), now w + t, w')
                 | None \<Rightarrow> (Rejected (Str (timeoutMsg P (Some pn))), now w + 500, w'))"
  using awaitOpen_foresee[OF assms, of P pn "None # es" rx]
  by (auto split: option.splits)



lemma init_quiet: "timers init = []"
  by (simp add: init_def)

lemma resolves_iff:
  "resolves P pn opens rx \<longleftrightarrow> (\<exists>k t. foresee P pn 0 opens rx = Some (Matched, k, t))"
proof (cases "foresee P pn 0 opens rx")
  case None
  then show ?thesis
    using awaitOpen_foresee[OF init_quiet, of P pn opens rx] by (simp add: resolves_def)
next
  case (Some r)
  obtain e k t where r: "r = (e, k, t)" by (cases r)
  show ?thesis
    using awaitOpen_foresee[OF init_quiet, of P pn opens rx] Some r
    by (cases e) (auto simp: resolves_def)
qed

lemma awaitOpen_run:
  assumes "timers w = []" and "awaitOpen P pn opens rx w = Some (res, t, w1)"
  shows "timers w1 = []" and "nextPort w < nextPort w1"
    and "\<forall>h<nextPort w. heap w1 h = heap w h"
    and "\<forall>h. nextPort w \<le> h \<and> h < nextPort w1 \<longrightarrow> path (heap w1 h) = Some pn"
    and "resolves P pn opens rx \<Longrightarrow>
           \<exists>h. res = Resolved (Some h) \<and> nextPort w \<le> h \<and> h < nextPort w1 \<and> isOpen (heap w1 h)"
    and "\<not> resolves P pn opens rx \<Longrightarrow> \<exists>e. res = Rejected e"
proof -
  obtain e k t0 where f: "foresee P pn 0 opens rx = Some (e, k, t0)"
    using awaitOpen_foresee[OF assms(1), of P pn opens rx] assms(2)
    by (cases "foresee P pn 0 opens rx") auto
  from awaitOpen_foresee[OF assms(1), of P pn opens rx] f assms(2)
  have res: "res = (case e of Matched \<Rightarrow> Resolved (Some (nextPort w + k)) | GaveUp x \<Rightarrow> Rejected x)"
    and np: "nextPort w1 = Suc (nextPort w + k)" and tm: "timers w1 = []"
    and hp: "\<forall>h. nextPort w \<le> h \<and> h < nextPort w1 \<longrightarrow>
                      path (heap w1 h) = Some pn \<and>
                      (isOpen (heap w1 h) \<longleftrightarrow> e = Matched \<and> h = nextPort w + k)"
    and fr: "\<forall>h<nextPort w. heap w1 h = heap w h"
    by auto
  show "timers w1 = []" by (rule tm)
  show "nextPort w < nextPort w1" using np by simp
  show "\<forall>h<nextPort w. heap w1 h = heap w h" by (rule fr)
  show "\<forall>h. nextPort w \<le> h \<and> h < nextPort w1 \<longrightarrow> path (heap w1 h) = Some pn" using hp by blast
  show "\<exists>h. res = Resolved (Some h) \<and> nextPort w \<le> h \<and> h < nextPort w1 \<and> isOpen (heap w1 h)"
    if "resolves P pn opens rx"
  proof -
    have e: "e = Matched" using that f by (simp add: resolves_iff)
    have "isOpen (heap w1 (nextPort w + k))" using hp np e by simp
    then show ?thesis using res e np by auto
  qed
  show "\<exists>e. res = Rejected e" if "\<not> resolves P pn opens rx"
    using that f res by (cases e) (auto simp: resolves_iff)
qed

lemma awaitOpen_total:
  assumes "timers w = []" and "MAX_OPEN_ATTEMPTS \<le> length opens"
  shows "awaitOpen P pn opens rx w \<noteq> None"
proof -
  have "foresee P pn 0 opens rx \<noteq> None"
    using assms(2) by (intro foresee_total) (simp_all add: MAX_OPEN_ATTEMPTS_def)
  then show ?thesis
    using awaitOpen_foresee[OF assms(1), of P pn opens rx] by auto
qed

lemmas run_defs =
  staleRetry_def staleProbe_def exampleLocked_def exampleOpened_def lockError_def
  exampleParams_def init_def verdict_def finalState_def awaitOpen_def
  open_def tryToOpen_def openDone_def openCallback_def setTimeout_def MAX_OPEN_ATTEMPTS_def
  close_def sleep_def fire_def probeTimeout_def clearTimeout_def probe_def rejectProbe_def
  resolveProbe_def rejectOpen_def resolveOpen_def advance_def onData_def dataListener_def
  timeoutMsg_def Let_def


lemma probePorts_total:
  assumes "timers w = []"
    and "\<forall>c \<in> set ports. MAX_OPEN_ATTEMPTS \<le> length (fst (snd c)) \<and>
           \<not> isl (serialPortMatchesFilter P M (fst c))"
  shows "\<exists>rs w'. probePorts P M ports acc w = Some (Inr rs, w')"
  using assms
proof (induction ports arbitrary: acc w)
  case Nil
  then show ?case by simp
next
  case (Cons c rest)
  obtain pt opens rx where c: "c = (pt, opens, rx)" by (cases c)
  have len: "MAX_OPEN_ATTEMPTS \<le> length opens" using Cons.prems(2) by (simp add: c)
  have rest: "\<forall>c \<in> set rest. MAX_OPEN_ATTEMPTS \<le> length (fst (snd c)) \<and>
           \<not> isl (serialPortMatchesFilter P M (fst c))" using Cons.prems(2) by simp
  have "\<not> isl (serialPortMatchesFilter P M pt)" using Cons.prems(2) by (simp add: c)
  then obtain ok q where f: "serialPortMatchesFilter P M pt = Inr (ok, q)"
    by (cases "serialPortMatchesFilter P M pt") auto
  show ?case
  proof (cases ok)
    case False
    then show ?thesis using Cons.IH[OF Cons.prems(1) rest] f
      by (simp add: c probePorts_step del: probePorts.simps)
  next
    case True
    obtain res t w1 where a: "awaitOpen P (pathOf q) opens rx w = Some (res, t, w1)"
      using awaitOpen_total[OF Cons.prems(1) len, of P "pathOf q" rx]
      by (cases "awaitOpen P (pathOf q) opens rx w") auto
    note s = awaitOpen_run[OF Cons.prems(1) a]
    show ?thesis
      using Cons.IH[OF s(1) rest] True a f
      by (cases res) (simp_all add: c probePorts_step del: probePorts.simps)
  qed
qed

subsection \<open>The examples\<close>

lemma exampleOpened_handle: "serialPort exampleOpened = Some 0 \<and> isOpen (heap exampleOpened 0)"
  by (simp add: exampleOpened_def openDone_def open_def tryToOpen_def init_def openCallback_def
      probe_def setTimeout_def Let_def)

lemma exampleOpened_probe: "exampleOpened = probe exampleParams 0 exampleAnswered"
  by (simp add: exampleOpened_def exampleAnswered_def openDone_def open_def tryToOpen_def
      openCallback_def init_def Let_def)

lemma exampleAnswered_state:
  "serialPort exampleAnswered = Some 0 \<and> nextProbe exampleAnswered = 0 \<and>
   nextTimer exampleAnswered = 0 \<and> now exampleAnswered = 0 \<and> timers exampleAnswered = [] \<and>
   promises exampleAnswered 0 = Pending \<and> listeners (heap exampleAnswered 0) = []"
  by (simp add: exampleAnswered_def open_def tryToOpen_def init_def Let_def)

lemma example_filter:
  "serialPortMatchesFilter exampleParams exampleMatch examplePort =
     Inr (True, examplePort(''comName'' \<mapsto> JString ''/dev/cu.usbABC''))"
  "serialPortMatchesFilter exampleParams exampleMatch silabsPort = Inr (True, silabsPort)"
  "serialPortMatchesFilter exampleParams exampleMatch otherPort = Inr (False, otherPort)"
  by (simp_all add: serialPortMatchesFilter_def normalizePort_def exampleParams_def
      examplePort_def silabsPort_def otherPort_def)

lemma example_descriptor:
  "descriptor exampleParams exampleMatch (examplePort, os, rx) =
     examplePort(''comName'' \<mapsto> JString ''/dev/cu.usbABC'')"
  "descriptor exampleParams exampleMatch (silabsPort, os, rx) = silabsPort"
  by (simp_all add: descriptor_def example_filter)

lemma example_path:
  "pathOf (examplePort(''comName'' \<mapsto> JString ''/dev/cu.usbABC'')) = ''/dev/cu.usbABC''"
  "pathOf silabsPort = ''/dev/ttyUSB1''"
  by (simp_all add: pathOf_def silabsPort_def)

lemma example_passes:
  "filter (passes exampleParams exampleMatch) exampleHost = tl exampleHost"
  by (simp add: exampleHost_def passes_def example_filter)


lemma example_answers:
  "\<forall>c \<in> set exampleHost. MAX_OPEN_ATTEMPTS \<le> length (fst (snd c)) \<and>
       \<not> isl (serialPortMatchesFilter exampleParams exampleMatch (fst c))"
  by (simp add: exampleHost_def example_filter MAX_OPEN_ATTEMPTS_def)

lemma example_objects:
  "nextPort (endState (probeAll exampleParams exampleMatch (Inr exampleHost) init)) = 3 \<and>
   path (heap (endState (probeAll exampleParams exampleMatch (Inr exampleHost) init)) 0) =
     Some ''/dev/cu.usbABC'' \<and>
   path (heap (endState (probeAll exampleParams exampleMatch (Inr exampleHost) init)) 1) =
     Some ''/dev/ttyUSB1'' \<and>
   path (heap (endState (probeAll exampleParams exampleMatch (Inr exampleHost) init)) 2) =
     Some ''/dev/ttyUSB1'' \<and>
   handles (probeAll exampleParams exampleMatch (Inr exampleHost) init) = [Some 2]"
  by (simp add: run_defs probeAll_def endState_def handles_def exampleHost_def
      serialPortMatchesFilter_def normalizePort_def examplePort_def silabsPort_def otherPort_def)

lemma path_filter:
  "serialPortMatchesFilter pathParams exampleMatch examplePort =
     Inr (True, examplePort(''comName'' \<mapsto> JString ''/dev/cu.usbABC''))"
  by (simp add: serialPortMatchesFilter_def normalizePort_def pathParams_def exampleParams_def
      examplePort_def)

section \<open>The claims\<close>

subsection \<open>The probe\<close>

text \<open>
  C1. A probe started in any state, on any promise, and then any sequence of events in
  any order: calls of \<^verbatim>\<open>open\<close> and \<^verbatim>\<open>close\<close>, answers of the host to attempts, chunks arriving
  on any object, timers firing, those of other opens and probes among them. The probe
  succeeds exactly when a port was held at its start, at least one chunk has reached its
  listener before its deadline fired, and the response is a contiguous run of the bytes
  of the chunks that reached it before its deadline, taken together in the order of
  arrival: a match may span any number of chunks. This holds after each event, so the
  probe succeeds at the first chunk that completes a match and at no chunk before. The
  buffer holds the bytes of every chunk that reached the listener, in order. The same
  holds of the chunks and the deadline alone, run on the probe with nothing in between
  (\<open>cs\<close>). The listener is added to the port that is held and the deadline is set 500 ms
  from the start; on a match, with nothing in between, the timer of the deadline is no
  longer pending and the promise of the open, if it is pending, is resolved with that
  port.
\<close>

theorem probe_detects_response:
  "(outcome (probes (run P evs (probe P p w)) (nextProbe w)) = Fulfilled \<longleftrightarrow>
      serialPort w \<noteq> None \<and> beforeDeadline (trace P (nextProbe w) evs (probe P p w)) \<noteq> [] \<and>
      sublist (probeRsp P)
        (received (beforeDeadline (trace P (nextProbe w) evs (probe P p w))))) \<and>
   data (probes (run P evs (probe P p w)) (nextProbe w)) =
     received (trace P (nextProbe w) evs (probe P p w)) \<and>
   (outcome (probes (probeEvents P (nextProbe w) cs (probe P p w)) (nextProbe w)) = Fulfilled \<longleftrightarrow>
      serialPort w \<noteq> None \<and> beforeDeadline cs \<noteq> [] \<and>
      sublist (probeRsp P) (received (beforeDeadline cs))) \<and>
   data (probes (probeEvents P (nextProbe w) cs (probe P p w)) (nextProbe w)) = received cs \<and>
   (\<forall>h. serialPort w = Some h \<longrightarrow>
      listeners (heap (probe P p w) h) = listeners (heap w h) @ [nextProbe w] \<and>
      timers (probe P p w) = timers w @ [(nextTimer w, now w + 500, ProbeTimeout (nextProbe w))] \<and>
      (beforeDeadline cs \<noteq> [] \<and> sublist (probeRsp P) (received (beforeDeadline cs)) \<longrightarrow>
         (\<forall>tm \<in> set (timers (probeEvents P (nextProbe w) cs (probe P p w))). fst tm \<noteq> nextTimer w) \<and>
         (promises w p = Pending \<longrightarrow>
            promises (probeEvents P (nextProbe w) cs (probe P p w)) p = Resolved (Some h))))"
  using probe_run[of P evs p w] probe_alone[of P w cs p] by simp

theorem probe_detects_response_witness:
  "outcome (probes (run exampleParams [Arrives 0 [1, 79], Arrives 0 [75, 3], Fires 0]
      exampleOpened) 0) = Fulfilled \<and>
   outcome (probes (run exampleParams [Arrives 0 [1, 79], Fires 0, Arrives 0 [75, 3]]
      exampleOpened) 0) \<noteq> Fulfilled \<and>
   outcome (probes (run exampleParams [Arrives 0 [1, 79], Closes, Arrives 0 [75, 3]]
      exampleOpened) 0) \<noteq> Fulfilled \<and>
   outcome (probes (run exampleParams [Arrives 0 [79], Arrives 7 [75], Arrives 0 [1], Arrives 0 [75]]
      exampleOpened) 0) \<noteq> Fulfilled \<and>
   listeners (heap exampleOpened 0) = [0] \<and>
   timers exampleOpened = [(0, 500, ProbeTimeout 0)] \<and>
   timers (probeEvents exampleParams 0 [Chunk [1, 79], Chunk [75, 3]] exampleOpened) = [] \<and>
   promises (probeEvents exampleParams 0 [Chunk [1, 79], Chunk [75, 3]] exampleOpened) 0 =
     Resolved (Some 0) \<and>
   verdict (awaitOpen exampleParams ''/dev/ttyUSB1'' [Some lockError, None]
      [(10, [1, 79]), (20, [75, 3])] init) = Some (Resolved (Some 1), 1030)"
proof -
  have r: "verdict (awaitOpen exampleParams ''/dev/ttyUSB1'' [Some lockError, None]
      [(10, [1, 79]), (20, [75, 3])] init) = Some (Resolved (Some 1), 1030)"
    by (simp add: run_defs)
  have s: "sublist (probeRsp exampleParams) [1, 79, 75, 3]"
    "\<not> sublist (probeRsp exampleParams) [1, 79]"
    "\<not> sublist (probeRsp exampleParams) [79, 1, 75]"
    by (simp_all add: js_includes_sublist[symmetric] exampleParams_def)
  have t1: "trace exampleParams 0 [Arrives 0 [1, 79], Arrives 0 [75, 3], Fires 0] exampleOpened =
      [Chunk [1, 79], Chunk [75, 3]]"
    and t2: "trace exampleParams 0 [Arrives 0 [1, 79], Fires 0, Arrives 0 [75, 3]] exampleOpened =
      [Chunk [1, 79], Deadline]"
    and t3: "trace exampleParams 0 [Arrives 0 [1, 79], Closes, Arrives 0 [75, 3]] exampleOpened =
      [Chunk [1, 79]]"
    and t4: "trace exampleParams 0 [Arrives 0 [79], Arrives 7 [75], Arrives 0 [1], Arrives 0 [75]]
      exampleOpened = [Chunk [79], Chunk [1], Chunk [75]]"
    by (simp_all add: run_defs pendingTimer_def)
  have tm: "timers (probeEvents exampleParams 0 [Chunk [1, 79], Chunk [75, 3]] exampleOpened) = []"
    by (simp add: run_defs)
  note a = exampleAnswered_state
  note g = probe_detects_response[where P = exampleParams and w = exampleAnswered and p = 0,
      folded exampleOpened_probe]
  have c1: "outcome (probes (run exampleParams [Arrives 0 [1, 79], Arrives 0 [75, 3], Fires 0]
      exampleOpened) 0) = Fulfilled"
    using g[where evs = "[Arrives 0 [1, 79], Arrives 0 [75, 3], Fires 0]" and cs = "[]"] a s
    by (simp add: t1 beforeDeadline_def del: trace.simps run.simps)
  have c2: "outcome (probes (run exampleParams [Arrives 0 [1, 79], Fires 0, Arrives 0 [75, 3]]
      exampleOpened) 0) \<noteq> Fulfilled"
    using g[where evs = "[Arrives 0 [1, 79], Fires 0, Arrives 0 [75, 3]]" and cs = "[]"] a s
    by (simp add: t2 beforeDeadline_def del: trace.simps run.simps)
  have c3: "outcome (probes (run exampleParams [Arrives 0 [1, 79], Closes, Arrives 0 [75, 3]]
      exampleOpened) 0) \<noteq> Fulfilled"
    using g[where evs = "[Arrives 0 [1, 79], Closes, Arrives 0 [75, 3]]" and cs = "[]"] a s
    by (simp add: t3 beforeDeadline_def del: trace.simps run.simps)
  have c4: "outcome (probes (run exampleParams
      [Arrives 0 [79], Arrives 7 [75], Arrives 0 [1], Arrives 0 [75]] exampleOpened) 0) \<noteq> Fulfilled"
    using g[where evs = "[Arrives 0 [79], Arrives 7 [75], Arrives 0 [1], Arrives 0 [75]]"
        and cs = "[]"] a s
    by (simp add: t4 beforeDeadline_def del: trace.simps run.simps)
  have c5: "listeners (heap exampleOpened 0) = [0] \<and>
      timers exampleOpened = [(0, 500, ProbeTimeout 0)] \<and>
      promises (probeEvents exampleParams 0 [Chunk [1, 79], Chunk [75, 3]] exampleOpened) 0 =
        Resolved (Some 0)"
    using g[where evs = "[]" and cs = "[Chunk [1, 79], Chunk [75, 3]]"] a s
    by (simp add: beforeDeadline_def del: trace.simps run.simps probeEvents.simps)
  show ?thesis using c1 c2 c3 c4 c5 tm r by blast
qed

subsection \<open>Lock retries\<close>




subsection \<open>probeAll and the failures of single ports\<close>




subsection \<open>The filter\<close>

text \<open>
  C4. Whenever the filter returns an answer for a descriptor, the descriptor it leaves is
  the normalized one, and the answer is true exactly when some group has, for each of
  its keys, a string on the normalized descriptor that matches the pattern of the key.
  It returns an answer for every descriptor that can be normalized when no pattern
  throws. A group with a key that is absent from the descriptor, or whose value is no
  string, does not match. \<^verbatim>\<open>probeAll\<close>, in any state, does the same with and without the
  ports for which the filter answers false; each of its results is for a port for which
  the filter answers true; the calls of \<^verbatim>\<open>open\<close> it makes are exactly those for the ports
  for which the filter answers true, one each, in the order of the enumeration; and
  every object it makes is on the normalized path of a port for which the filter answers
  true (or on no path, when an attempt follows a \<^verbatim>\<open>close\<close>).
\<close>

theorem filter_semantics:
  "(\<forall>b q. serialPortMatchesFilter P (M :: 'pat \<Rightarrow> string \<Rightarrow> err + bool) pt = Inr (b, q) \<longrightarrow>
      normalizePort pt = Inr q \<and>
      (b \<longleftrightarrow> (\<exists>g \<in> set (filters P). \<forall>(key, re) \<in> set g.
                 \<exists>s. q key = Some (JString s) \<and> M re s = Inr True))) \<and>
   (\<forall>q. normalizePort pt = Inr q \<and>
        (\<forall>g \<in> set (filters P). \<forall>(key, re) \<in> set g. \<forall>s. \<not> isl (M re s)) \<longrightarrow>
        (\<exists>b. serialPortMatchesFilter P M pt = Inr (b, q))) \<and>
   (\<forall>g key re. (key, re) \<in> set g \<and> (\<forall>s. pt key \<noteq> Some (JString s))
        \<longrightarrow> entriesMatch M pt g \<noteq> Inr True) \<and>
   probeAll P M (Inr ports) w = probeAll P M (Inr (filter (\<lambda>c. \<not> excluded P M c) ports)) w \<and>
   (\<forall>rs w'. probeAll P M (Inr ports) w = Some (Inr rs, w') \<longrightarrow>
      (\<forall>r \<in> set rs. \<exists>c \<in> set ports. serialPortMatchesFilter P M (fst c) = Inr (True, port r)) \<and>
      opened w' = opened w @ map (\<lambda>c. pathOf (descriptor P M c)) (filter (passes P M) ports) \<and>
      (\<forall>h. nextPort w \<le> h \<and> h < nextPort w' \<longrightarrow>
         path (heap w' h) = None \<or>
         (\<exists>c \<in> set ports. passes P M c \<and>
              path (heap w' h) = Some (pathOf (descriptor P M c)))))"
proof (intro conjI allI impI)
  fix b q assume a: "serialPortMatchesFilter P M pt = Inr (b, q)"
  show "normalizePort pt = Inr q" using a by (rule filter_leaves)
  then have "anyFilter M q (filters P) = Inr b"
    using a by (auto simp: serialPortMatchesFilter_def split: sum.splits)
  then show "b \<longleftrightarrow> (\<exists>g \<in> set (filters P). \<forall>(key, re) \<in> set g.
                 \<exists>s. q key = Some (JString s) \<and> M re s = Inr True)"
    by (rule anyFilter_iff)
next
  fix q assume a: "normalizePort pt = Inr q \<and>
        (\<forall>g \<in> set (filters P). \<forall>(key, re) \<in> set g. \<forall>s. \<not> isl (M re s))"
  then have "\<not> isl (anyFilter M q (filters P))" by (intro anyFilter_total) simp
  then show "\<exists>b. serialPortMatchesFilter P M pt = Inr (b, q)"
    using a by (cases "anyFilter M q (filters P)") (auto simp: serialPortMatchesFilter_def)
next
  fix g :: "(string \<times> 'pat) list" and key and re :: 'pat
  assume "(key, re) \<in> set g \<and> (\<forall>s. pt key \<noteq> Some (JString s))"
  then show "entriesMatch M pt g \<noteq> Inr True" by (auto simp: entriesMatch_True)
next
  show "probeAll P M (Inr ports) w = probeAll P M (Inr (filter (\<lambda>c. \<not> excluded P M c) ports)) w"
    using probePorts_excluded[of P M ports "[]" w] by (simp add: probeAll_def)
next
  fix rs w' assume a: "probeAll P M (Inr ports) w = Some (Inr rs, w')"
  then have run: "probePorts P M ports [] w = Some (Inr rs, w')" by (simp add: probeAll_def)
  show "\<forall>r \<in> set rs. \<exists>c \<in> set ports. serialPortMatchesFilter P M (fst c) = Inr (True, port r)"
    using probePorts_results[OF run] by simp
  show "opened w' = opened w @ map (\<lambda>c. pathOf (descriptor P M c)) (filter (passes P M) ports)"
    using probePorts_opened[OF run] by simp
  show "path (heap w' h) = None \<or>
         (\<exists>c \<in> set ports. passes P M c \<and>
              path (heap w' h) = Some (pathOf (descriptor P M c)))"
    if "nextPort w \<le> h \<and> h < nextPort w'" for h
    using probePorts_objects[OF run] that by blast
qed

theorem filter_semantics_witness:
  "normalizePort examplePort = Inr (examplePort(''comName'' \<mapsto> JString ''/dev/cu.usbABC'')) \<and>
   serialPortMatchesFilter exampleParams exampleMatch examplePort =
     Inr (True, examplePort(''comName'' \<mapsto> JString ''/dev/cu.usbABC'')) \<and>
   serialPortMatchesFilter exampleParams exampleMatch silabsPort = Inr (True, silabsPort) \<and>
   serialPortMatchesFilter exampleParams exampleMatch otherPort = Inr (False, otherPort) \<and>
   entriesMatch exampleMatch otherPort [(''vendor'', Whole ''FTDI'')] \<noteq> Inr True \<and>
   probeAll exampleParams exampleMatch (Inr exampleHost) init =
     probeAll exampleParams exampleMatch (Inr (tl exampleHost)) init \<and>
   (\<exists>rs w'. probeAll exampleParams exampleMatch (Inr exampleHost) init = Some (Inr rs, w') \<and>
       opened w' = [''/dev/cu.usbABC'', ''/dev/ttyUSB1'']) \<and>
   nextPort (endState (probeAll exampleParams exampleMatch (Inr exampleHost) init)) = 3 \<and>
   path (heap (endState (probeAll exampleParams exampleMatch (Inr exampleHost) init)) 0) =
     Some ''/dev/cu.usbABC'' \<and>
   path (heap (endState (probeAll exampleParams exampleMatch (Inr exampleHost) init)) 1) =
     Some ''/dev/ttyUSB1'' \<and>
   path (heap (endState (probeAll exampleParams exampleMatch (Inr exampleHost) init)) 2) =
     Some ''/dev/ttyUSB1''"
proof -
  note a = filter_semantics[where P = exampleParams and M = exampleMatch and pt = examplePort
      and ports = exampleHost and w = init]
  note b = filter_semantics[where P = exampleParams and M = exampleMatch and pt = otherPort
      and ports = exampleHost and w = init]
  have 1: "normalizePort examplePort = Inr (examplePort(''comName'' \<mapsto> JString ''/dev/cu.usbABC''))"
    using a example_filter(1) by blast
  have "(''vendor'', Whole ''FTDI'') \<in> set [(''vendor'', Whole ''FTDI'')] \<and>
        (\<forall>s. otherPort ''vendor'' \<noteq> Some (JString s))"
    by (simp add: otherPort_def)
  then have 2: "entriesMatch exampleMatch otherPort [(''vendor'', Whole ''FTDI'')] \<noteq> Inr True"
    using b by blast
  have "filter (\<lambda>c. \<not> excluded exampleParams exampleMatch c) exampleHost = tl exampleHost"
    by (simp add: exampleHost_def excluded_def example_filter)
  then have 3: "probeAll exampleParams exampleMatch (Inr exampleHost) init =
      probeAll exampleParams exampleMatch (Inr (tl exampleHost)) init"
    using a by simp
  obtain rs w' where run: "probeAll exampleParams exampleMatch (Inr exampleHost) init = Some (Inr rs, w')"
    using probePorts_total[OF init_quiet example_answers, of "[]"] by (auto simp: probeAll_def)
  have "opened w' = opened init @ map (\<lambda>c. pathOf (descriptor exampleParams exampleMatch c))
      (filter (passes exampleParams exampleMatch) exampleHost)"
    using a run by blast
  then have 4: "opened w' = [''/dev/cu.usbABC'', ''/dev/ttyUSB1'']"
    by (simp add: example_passes) (simp add: exampleHost_def example_descriptor example_path init_def)
  show ?thesis using 1 2 3 4 run example_filter example_objects by blast
qed

subsection \<open>The deadline\<close>




subsection \<open>Failures and timers\<close>







subsection \<open>The path\<close>

text \<open>
  C8. A path \<^verbatim>\<open>/dev/tty.usbXXX\<close> is rewritten to \<^verbatim>\<open>/dev/cu.usbXXX\<close>, and a descriptor whose
  path does not start with \<^verbatim>\<open>/dev/tty.usb\<close> is unchanged. The filter gives for a descriptor
  what it gives for the normalized one, leaves the normalized one, and tests the patterns
  on the properties of the normalized one, the path among them. \<^verbatim>\<open>probeAll\<close>, in any state,
  when it resolves: the paths given to \<^verbatim>\<open>open\<close> are, in order, the normalized paths of the
  ports that pass the filter; for each of them an object has been made on the normalized
  path; every object made is on such a normalized path (or on none, when an attempt
  follows a \<^verbatim>\<open>close\<close>); and the descriptor in each result is the normalized descriptor of
  an enumerated port.
\<close>

theorem path_normalized:
  "(pt ''comName'' = Some (JString (''/dev/tty.usb'' @ x)) \<longrightarrow>
      normalizePort pt = Inr (pt(''comName'' \<mapsto> JString (''/dev/cu.usb'' @ x)))) \<and>
   (\<forall>s. pt ''comName'' = Some (JString s) \<and> \<not> startsWith s ''/dev/tty.usb'' \<longrightarrow>
      normalizePort pt = Inr pt) \<and>
   (\<forall>q. normalizePort pt = Inr q \<longrightarrow>
      serialPortMatchesFilter P M pt = serialPortMatchesFilter P M q \<and>
      (\<forall>b q'. serialPortMatchesFilter P M pt = Inr (b, q') \<longrightarrow>
         q' = q \<and>
         (b \<longleftrightarrow> (\<exists>g \<in> set (filters P). \<forall>(key, re) \<in> set g.
                    \<exists>s. q key = Some (JString s) \<and> M re s = Inr True)))) \<and>
   (\<forall>rs w'. probeAll P M (Inr ports) w = Some (Inr rs, w') \<longrightarrow>
      opened w' = opened w @ map (\<lambda>c. pathOf (descriptor P M c)) (filter (passes P M) ports) \<and>
      (\<forall>c \<in> set ports. passes P M c \<longrightarrow>
         normalizePort (fst c) = Inr (descriptor P M c) \<and>
         (\<exists>h. nextPort w \<le> h \<and> h < nextPort w' \<and>
              path (heap w' h) = Some (pathOf (descriptor P M c)))) \<and>
      (\<forall>h. nextPort w \<le> h \<and> h < nextPort w' \<longrightarrow>
         path (heap w' h) = None \<or>
         (\<exists>c \<in> set ports. passes P M c \<and>
              path (heap w' h) = Some (pathOf (descriptor P M c)))) \<and>
      (\<forall>r \<in> set rs. \<exists>c \<in> set ports. normalizePort (fst c) = Inr (port r)))"
proof (intro conjI allI impI ballI)
  show "normalizePort pt = Inr (pt(''comName'' \<mapsto> JString (''/dev/cu.usb'' @ x)))"
    if "pt ''comName'' = Some (JString (''/dev/tty.usb'' @ x))"
    using that by (rule normalizePort_usb)
  show "normalizePort pt = Inr pt"
    if "pt ''comName'' = Some (JString s) \<and> \<not> startsWith s ''/dev/tty.usb''" for s
    using that by (simp add: normalizePort_other)
  show "serialPortMatchesFilter P M pt = serialPortMatchesFilter P M q"
    if "normalizePort pt = Inr q" for q
    using that by (simp add: filter_normalized)
  show "q' = q"
    if "normalizePort pt = Inr q" "serialPortMatchesFilter P M pt = Inr (b, q')" for q b q'
    using that filter_leaves[of P M pt b q'] by simp
  show "b \<longleftrightarrow> (\<exists>g \<in> set (filters P). \<forall>(key, re) \<in> set g.
                    \<exists>s. q key = Some (JString s) \<and> M re s = Inr True)"
    if n: "normalizePort pt = Inr q" and f: "serialPortMatchesFilter P M pt = Inr (b, q')"
    for q b q'
  proof -
    have "anyFilter M q (filters P) = Inr b"
      using n f by (auto simp: serialPortMatchesFilter_def split: sum.splits)
    then show ?thesis by (rule anyFilter_iff)
  qed
next
  fix rs w' assume a: "probeAll P M (Inr ports) w = Some (Inr rs, w')"
  then have run: "probePorts P M ports [] w = Some (Inr rs, w')" by (simp add: probeAll_def)
  note o = probePorts_opened[OF run]
  show "opened w' = opened w @ map (\<lambda>c. pathOf (descriptor P M c)) (filter (passes P M) ports)"
    using o by simp
  show "normalizePort (fst c) = Inr (descriptor P M c)" if "c \<in> set ports" "passes P M c" for c
    using that(2) by (auto simp: passes_def descriptor_def filter_leaves split: sum.splits)
  show "\<exists>h. nextPort w \<le> h \<and> h < nextPort w' \<and>
              path (heap w' h) = Some (pathOf (descriptor P M c))"
    if "c \<in> set ports" "passes P M c" for c
    using that o by blast
  show "path (heap w' h) = None \<or>
         (\<exists>c \<in> set ports. passes P M c \<and>
              path (heap w' h) = Some (pathOf (descriptor P M c)))"
    if "nextPort w \<le> h \<and> h < nextPort w'" for h
    using probePorts_objects[OF run] that by blast
  show "\<exists>c \<in> set ports. normalizePort (fst c) = Inr (port r)" if "r \<in> set rs" for r
  proof -
    from probePorts_results[OF run] that obtain c where "c \<in> set ports"
      "serialPortMatchesFilter P M (fst c) = Inr (True, port r)" by auto
    then show ?thesis using filter_leaves[of P M "fst c" True "port r"] by blast
  qed
qed

theorem path_normalized_witness:
  "normalizePort examplePort = Inr (examplePort(''comName'' \<mapsto> JString ''/dev/cu.usbABC'')) \<and>
   normalizePort silabsPort = Inr silabsPort \<and>
   serialPortMatchesFilter pathParams exampleMatch examplePort =
     serialPortMatchesFilter pathParams exampleMatch
       (examplePort(''comName'' \<mapsto> JString ''/dev/cu.usbABC'')) \<and>
   serialPortMatchesFilter pathParams exampleMatch examplePort =
     Inr (True, examplePort(''comName'' \<mapsto> JString ''/dev/cu.usbABC'')) \<and>
   (\<exists>rs w' h. probeAll exampleParams exampleMatch (Inr exampleHost) init = Some (Inr rs, w') \<and>
       opened w' = [''/dev/cu.usbABC'', ''/dev/ttyUSB1''] \<and>
       h < nextPort w' \<and> path (heap w' h) = Some ''/dev/cu.usbABC'') \<and>
   path (heap (endState (probeAll exampleParams exampleMatch (Inr exampleHost) init)) 0) =
     Some ''/dev/cu.usbABC''"
proof -
  note a = path_normalized[where P = pathParams and M = exampleMatch and pt = examplePort
      and x = "''ABC''" and ports = exampleHost and w = init]
  note b = path_normalized[where P = exampleParams and M = exampleMatch and pt = silabsPort
      and ports = exampleHost and w = init]
  have 1: "normalizePort examplePort = Inr (examplePort(''comName'' \<mapsto> JString ''/dev/cu.usbABC''))"
    using a by (simp add: examplePort_def)
  have "silabsPort ''comName'' = Some (JString ''/dev/ttyUSB1'') \<and>
      \<not> startsWith ''/dev/ttyUSB1'' ''/dev/tty.usb''"
    by (simp add: silabsPort_def)
  then have 2: "normalizePort silabsPort = Inr silabsPort" using b by blast
  have 3: "serialPortMatchesFilter pathParams exampleMatch examplePort =
     serialPortMatchesFilter pathParams exampleMatch
       (examplePort(''comName'' \<mapsto> JString ''/dev/cu.usbABC''))"
    using a 1 by blast
  obtain rs w' where run: "probeAll exampleParams exampleMatch (Inr exampleHost) init = Some (Inr rs, w')"
    using probePorts_total[OF init_quiet example_answers, of "[]"] by (auto simp: probeAll_def)
  note r = b[THEN conjunct2, THEN conjunct2, THEN conjunct2, rule_format, OF run]
  have "opened w' = opened init @ map (\<lambda>c. pathOf (descriptor exampleParams exampleMatch c))
      (filter (passes exampleParams exampleMatch) exampleHost)"
    using r by blast
  then have 4: "opened w' = [''/dev/cu.usbABC'', ''/dev/ttyUSB1'']"
    by (simp add: example_passes) (simp add: exampleHost_def example_descriptor example_path init_def)
  have "passes exampleParams exampleMatch (exampleHost ! 1)" "exampleHost ! 1 \<in> set exampleHost"
    by (simp_all add: exampleHost_def passes_def example_filter)
  then have "\<exists>h. nextPort init \<le> h \<and> h < nextPort w' \<and>
      path (heap w' h) = Some (pathOf (descriptor exampleParams exampleMatch (exampleHost ! 1)))"
    using r by blast
  then obtain h where 5: "h < nextPort w'" "path (heap w' h) = Some ''/dev/cu.usbABC''"
    by (auto simp: exampleHost_def example_descriptor example_path)
  show ?thesis using 1 2 3 4 5 run path_filter example_objects by blast
qed

subsection \<open>close\<close>

text \<open>
  C9. \<^verbatim>\<open>close\<close> is idempotent: closing twice leaves the state that closing once leaves.
  With no handle, or with a handle that is not open, it changes nothing; with an open
  handle it closes that handle, forgets it, and touches no other object. It is a total
  function of the state: it cannot fail.
\<close>

theorem close_idempotent:
  "close (close w) = close w \<and>
   ((case serialPort w of None \<Rightarrow> True | Some h \<Rightarrow> \<not> isOpen (heap w h)) \<longrightarrow> close w = w) \<and>
   (\<forall>h. serialPort w = Some h \<and> isOpen (heap w h) \<longrightarrow>
        \<not> isOpen (heap (close w) h) \<and> serialPort (close w) = None \<and>
        (\<forall>h'. h' \<noteq> h \<longrightarrow> heap (close w) h' = heap w h'))"
  by (auto simp: close_def split: option.splits)

theorem close_idempotent_witness:
  "close init = init \<and> \<not> isOpen (heap (close exampleOpened) 0) \<and>
   close (close exampleOpened) = close exampleOpened"
  using close_idempotent[of init] close_idempotent[of exampleOpened] exampleOpened_handle
  by (simp add: init_def)

subsection \<open>The lock-attempt counter\<close>




end
